theory Spec2Isabelle
  imports Complex_Main "HOL-Library.Sublist" "HOL-Library.Multiset"
begin

section \<open>Python primitives used by the matchers\<close>

text \<open>
  Strings are lists of 8-bit characters read as ASCII text; scores, similarities and
  thresholds are Python floats, modelled by the real numbers (rounding is not modelled).
\<close>

type_synonym score = real

text \<open>
  The exceptions the modelled code can raise; a raised exception is the left summand of a
  result. In Python \<open>JSONDecodeError\<close> is a subclass of \<open>ValueError\<close>, but an \<open>except\<close>
  clause for \<open>JSONDecodeError\<close> does not catch a \<open>ValueError\<close> of another kind, so the two
  are kept apart.
\<close>

datatype error = ValueError | ZeroDivisionError | IndexError | JSONDecodeError | RecursionError

definition lower_char :: "char \<Rightarrow> char" where
  "lower_char c =
     (case map_of (zip ''ABCDEFGHIJKLMNOPQRSTUVWXYZ'' ''abcdefghijklmnopqrstuvwxyz'') c of
        Some d \<Rightarrow> d
      | None \<Rightarrow> c)"

definition lower :: "string \<Rightarrow> string" where
  "lower s = map lower_char s"

definition is_space :: "char \<Rightarrow> bool" where
  "is_space c =
     (c \<in> set [CHR 0x09, CHR 0x0A, CHR 0x0B, CHR 0x0C, CHR 0x0D,
                CHR 0x1C, CHR 0x1D, CHR 0x1E, CHR 0x1F, CHR '' ''])"

text \<open>\<open>str.split()\<close> without a separator: maximal runs of non-whitespace characters.\<close>

fun split_ws :: "string \<Rightarrow> string \<Rightarrow> string list" where
  "split_ws cur [] = (if cur = [] then [] else [cur])"
| "split_ws cur (c # cs) =
     (if is_space c then (if cur = [] then split_ws [] cs else cur # split_ws [] cs)
      else split_ws (cur @ [c]) cs)"

definition split :: "string \<Rightarrow> string list" where
  "split s = split_ws [] s"

text \<open>\<open>a in b\<close> on strings: \<open>a\<close> occurs in \<open>b\<close> as a contiguous substring.\<close>

fun py_in :: "string \<Rightarrow> string \<Rightarrow> bool" where
  "py_in a [] = (a = [])"
| "py_in a (c # cs) = (prefix a (c # cs) \<or> py_in a cs)"

text \<open>
  A \<open>dict\<close> keeps its keys in insertion order; assigning to a key that is present keeps
  the key's position. \<open>dict_get d k v\<close> is \<open>d.get(k, v)\<close>, \<open>dict_set d k v\<close> is
  \<open>d[k] = v\<close>, and the list itself is \<open>d.items()\<close>.
\<close>

type_synonym ('k, 'v) dict = "('k \<times> 'v) list"

fun dict_get :: "('k, 'v) dict \<Rightarrow> 'k \<Rightarrow> 'v \<Rightarrow> 'v" where
  "dict_get [] k d = d"
| "dict_get ((k', v') # r) k d = (if k = k' then v' else dict_get r k d)"

fun dict_set :: "('k, 'v) dict \<Rightarrow> 'k \<Rightarrow> 'v \<Rightarrow> ('k, 'v) dict" where
  "dict_set [] k v = [(k, v)]"
| "dict_set ((k', v') # r) k v =
     (if k = k' then (k', v) # r else (k', v') # dict_set r k v)"

text \<open>
  \<open>sorted(items, key=lambda x: x[1], reverse=True)\<close>: a stable sort, descending by the
  second component; entries with equal scores keep their relative order.
\<close>

definition sorted_desc :: "('k \<times> score) list \<Rightarrow> ('k \<times> score) list" where
  "sorted_desc xs = sort_key (\<lambda>p. - snd p) xs"

text \<open>\<open>xs[:n]\<close> for an integer \<open>n\<close>; a negative \<open>n\<close> drops \<open>-n\<close> elements from the end.\<close>

definition py_slice_to :: "int \<Rightarrow> 'a list \<Rightarrow> 'a list" where
  "py_slice_to n xs =
     (if 0 \<le> n then take (nat n) xs else take (nat (int (length xs) + n)) xs)"

section \<open>The lexical matcher: \<open>fuzzy_search\<close>\<close>

text \<open>
  \<open>rapidfuzz.process.extract(query, choices, scorer=fuzz.ratio, limit, score_cutoff)\<close> is a
  library call; the matcher takes it as a parameter. It returns triples
  (choice, score, index).
\<close>

type_synonym extractor = "string \<Rightarrow> string list \<Rightarrow> nat \<Rightarrow> real \<Rightarrow> (string \<times> real \<times> nat) list"

text \<open>Lines 46-49: the substring scan of one token over the vocabulary.\<close>

definition substring_pass :: "string \<Rightarrow> string list \<Rightarrow> (string, score) dict \<Rightarrow> (string, score) dict" where
  "substring_pass word notes candidates =
     fold (\<lambda>note c.
             if py_in (lower note) word \<or> py_in word (lower note)
             then dict_set c note (max (dict_get c note 0) 1)
             else c)
          notes candidates"

text \<open>Lines 59-60 and 70-71: merging the matches of one \<open>extract\<close> call.\<close>

definition add_matches :: "(string \<times> real \<times> nat) list \<Rightarrow> (string, score) dict \<Rightarrow> (string, score) dict" where
  "add_matches matches candidates =
     fold (\<lambda>(m, s, _) c. dict_set c m (max (dict_get c m 0) (s / 100))) matches candidates"

text \<open>Lines 41-60: the body of the loop over the tokens.\<close>

definition word_pass :: "extractor \<Rightarrow> string list \<Rightarrow> string \<Rightarrow> (string, score) dict \<Rightarrow> (string, score) dict" where
  "word_pass extract notes word candidates =
     (if length word < 3 then candidates
      else add_matches (extract word notes 5 60) (substring_pass word notes candidates))"

definition fuzzy_candidates :: "extractor \<Rightarrow> string \<Rightarrow> string list \<Rightarrow> (string, score) dict" where
  "fuzzy_candidates extract query notes =
     add_matches (extract query notes 5 50)
       (fold (word_pass extract notes) (split (lower query)) [])"

definition fuzzy_search :: "extractor \<Rightarrow> string \<Rightarrow> string list \<Rightarrow> int \<Rightarrow> (string \<times> score) list" where
  "fuzzy_search extract query notes limit =
     py_slice_to limit (sorted_desc (fuzzy_candidates extract query notes))"

subsection \<open>A model of the library's scorer\<close>

text \<open>
  Modelled from the spec: the approximate string-similarity scorer of the external
  library (a normalized edit distance scaled to [0,100]) and its top-k selection with a
  score cutoff. \<open>ratio\<close> is the normalized indel similarity
  \<open>100 * 2 * lcs / (len a + len b)\<close>, where \<open>lcs\<close> is the length of a longest common
  subsequence, computed row by row (\<open>lcs_row\<close> fills the row of one character of the
  first string from the previous row); \<open>extract_ratio\<close> scores every choice, drops the
  scores below the cutoff, sorts descending (ties by index) and keeps \<open>limit\<close> entries.
\<close>

fun lcs_row :: "'a \<Rightarrow> 'a list \<Rightarrow> nat list \<Rightarrow> nat \<Rightarrow> nat \<Rightarrow> nat list" where
  "lcs_row x (y # ys) (r # rs) diag left =
     (if x = y then Suc diag # lcs_row x ys rs r (Suc diag)
      else max r left # lcs_row x ys rs r (max r left))"
| "lcs_row x ys rs diag left = []"

definition lcs :: "'a list \<Rightarrow> 'a list \<Rightarrow> nat" where
  "lcs xs ys = last (0 # fold (\<lambda>x row. lcs_row x ys row 0 0) xs (replicate (length ys) 0))"

definition ratio :: "string \<Rightarrow> string \<Rightarrow> real" where
  "ratio a b =
     (if length a + length b = 0 then 100
      else 100 * real (2 * lcs a b) / real (length a + length b))"

definition extract_ratio :: extractor where
  "extract_ratio query choices limit cutoff =
     take limit
       (sort_key (\<lambda>(c, s, i). - s)
          (filter (\<lambda>(c, s, i). cutoff \<le> s)
             (map (\<lambda>(i, c). (c, ratio query c, i)) (enumerate 0 choices))))"


section \<open>The semantic matcher: \<open>vector_search\<close>\<close>

type_synonym vector = "real list"

text \<open>
  \<open>model.encode(text, normalize_embeddings=True)\<close> is the external embedding model; the
  matcher takes it as a parameter.
\<close>

type_synonym encoder = "string \<Rightarrow> vector"

text \<open>\<open>np.dot\<close> of two one-dimensional arrays raises \<open>ValueError\<close> when their lengths differ.\<close>

definition dot :: "vector \<Rightarrow> vector \<Rightarrow> error + real" where
  "dot a b =
     (if length a = length b then Inr (sum_list (map (\<lambda>(x, y). x * y) (zip a b)))
      else Inl ValueError)"

text \<open>Lines 93-97: the loop over \<open>note_embeddings.items()\<close>, appending to \<open>similarities\<close>.\<close>

fun similarities_loop ::
  "vector \<Rightarrow> real \<Rightarrow> (string, vector) dict \<Rightarrow> (string \<times> score) list \<Rightarrow> error + (string \<times> score) list" where
  "similarities_loop query_embedding threshold [] similarities = Inr similarities"
| "similarities_loop query_embedding threshold ((note, embedding) # rest) similarities =
     (case dot query_embedding embedding of
        Inl err \<Rightarrow> Inl err
      | Inr similarity \<Rightarrow>
          similarities_loop query_embedding threshold rest
            (if threshold \<le> similarity then similarities @ [(note, similarity)]
             else similarities))"

definition vector_candidates ::
  "string \<Rightarrow> encoder \<Rightarrow> (string, vector) dict \<Rightarrow> real \<Rightarrow> error + (string \<times> score) list" where
  "vector_candidates query model note_embeddings threshold =
     similarities_loop (model (''query: '' @ query)) threshold note_embeddings []"

definition vector_search ::
  "string \<Rightarrow> encoder \<Rightarrow> (string, vector) dict \<Rightarrow> int \<Rightarrow> real \<Rightarrow> error + (string \<times> score) list" where
  "vector_search query model note_embeddings limit threshold =
     (case vector_candidates query model note_embeddings threshold of
        Inl err \<Rightarrow> Inl err
      | Inr similarities \<Rightarrow> Inr (py_slice_to limit (sorted_desc similarities)))"

section \<open>The fusion ranker: \<open>hybrid_search\<close>\<close>

text \<open>Lines 128-129: the lexical results enter the combined mapping with weight 0.4.\<close>

definition add_fuzzy :: "(string \<times> score) list \<Rightarrow> (string, score) dict \<Rightarrow> (string, score) dict" where
  "add_fuzzy fuzzy_results combined =
     fold (\<lambda>(note, s) c. dict_set c note (dict_get c note 0 + s * 0.4)) fuzzy_results combined"

text \<open>
  Lines 132-135: the semantic results are normalized and added with weight 0.6. The float
  division raises \<open>ZeroDivisionError\<close> when \<open>1.0 - vector_threshold\<close> is zero.
\<close>

fun add_vector :: "real \<Rightarrow> (string \<times> score) list \<Rightarrow> (string, score) dict \<Rightarrow> error + (string, score) dict" where
  "add_vector vector_threshold [] combined = Inr combined"
| "add_vector vector_threshold ((note, s) # rest) combined =
     (if 1 - vector_threshold = 0 then Inl ZeroDivisionError
      else (let normalized = (s - vector_threshold) / (1 - vector_threshold)
            in add_vector vector_threshold rest
                 (dict_set combined note (dict_get combined note 0 + normalized * 0.6))))"

text \<open>Lines 119-135: the combined mapping before it is sorted.\<close>

definition combined_scores ::
  "extractor \<Rightarrow> string \<Rightarrow> string list \<Rightarrow> encoder \<Rightarrow> (string, vector) dict \<Rightarrow> real
     \<Rightarrow> error + (string, score) dict" where
  "combined_scores extract query notes model note_embeddings vector_threshold =
     (let fuzzy_results = fuzzy_search extract query notes 20
      in case vector_search query model note_embeddings 20 vector_threshold of
           Inl err \<Rightarrow> Inl err
         | Inr vector_results \<Rightarrow>
             add_vector vector_threshold vector_results (add_fuzzy fuzzy_results []))"

definition hybrid_search ::
  "extractor \<Rightarrow> string \<Rightarrow> string list \<Rightarrow> encoder \<Rightarrow> (string, vector) dict \<Rightarrow> int \<Rightarrow> real
     \<Rightarrow> error + (string \<times> score) list" where
  "hybrid_search extract query notes model note_embeddings limit vector_threshold =
     (case combined_scores extract query notes model note_embeddings vector_threshold of
        Inl err \<Rightarrow> Inl err
      | Inr combined \<Rightarrow> Inr (py_slice_to limit (sorted_desc combined)))"

section \<open>The enrichment step: \<open>get_llm_mappings\<close>\<close>

text \<open>The values \<open>json.loads\<close> returns; an object is a \<open>dict\<close>.\<close>

datatype json =
    JNull
  | JBool bool
  | JInt int
  | JFloat real
  | JString string
  | JArray "json list"
  | JObject "(string \<times> json) list"

text \<open>
  \<open>json.loads\<close> is a library call, taken as a parameter: \<open>Inl e\<close> stands for a raised
  exception \<open>e\<close>. The library raises \<open>JSONDecodeError\<close> on a text that is not JSON; it
  raises \<open>RecursionError\<close> on a text nested deeper than the interpreter's recursion limit
  and \<open>ValueError\<close> on an integer literal beyond the interpreter's digit limit.
\<close>

type_synonym json_loads = "string \<Rightarrow> error + json"

definition ALL_NOTES :: "string list" where
  "ALL_NOTES =
   [''peach'', ''apricot'', ''nectarine'', ''plum'', ''cherry'', ''black cherry'',
    ''stone fruit'', ''prune'', ''persimmon'', ''citrus'', ''orange'', ''blood orange'',
    ''tangerine'', ''mandarin'', ''lemon'', ''lime'', ''grapefruit'', ''bergamot'',
    ''yuzu'', ''berry'', ''berries'', ''red berries'', ''dark berries'', ''blueberry'',
    ''raspberry'', ''strawberry'', ''blackberry'', ''blackcurrant'', ''redcurrant'',
    ''cranberry'', ''gooseberry'', ''tropical'', ''mango'', ''pineapple'', ''papaya'',
    ''passion fruit'', ''guava'', ''lychee'', ''coconut'', ''banana'', ''kiwi'',
    ''raisin'', ''date'', ''fig'', ''dried fruits'', ''fruitcake'', ''tamarind'',
    ''apple'', ''green apple'', ''pear'', ''grape'', ''melon'', ''watermelon'',
    ''pomegranate'', ''floral'', ''jasmine'', ''rose'', ''lavender'', ''violet'',
    ''hibiscus'', ''honeysuckle'', ''geranium'', ''chamomile'', ''honey'', ''caramel'',
    ''toffee'', ''fudge'', ''maple'', ''brown sugar'', ''molasses'', ''panela'', ''candy'',
    ''chocolate'', ''dark chocolate'', ''milk chocolate'', ''cocoa'', ''cacao'', ''nutty'',
    ''almond'', ''hazelnut'', ''walnut'', ''pistachio'', ''macadamia'', ''pecan'',
    ''marzipan'', ''praline'', ''cinnamon'', ''cardamom'', ''ginger'', ''baking spice'',
    ''tea'', ''black tea'', ''green tea'', ''oolong'', ''darjeeling'', ''wine'',
    ''red wine'', ''brandy'', ''rum'', ''jammy'', ''herbal'', ''lemongrass'', ''verbena'',
    ''eucalyptus'', ''tobacco'', ''brioche'', ''biscuit'', ''grains'', ''malt'', ''cream'',
    ''custard'', ''vanilla'', ''butter'', ''fresh'', ''crisp'', ''bright'', ''juicy'',
    ''complex'', ''fermented'', ''wild'', ''yeasty'', ''boozy'', ''winey'']"

definition py_strip :: "string \<Rightarrow> string" where
  "py_strip s = rev (dropWhile is_space (rev (dropWhile is_space s)))"

text \<open>\<open>text.split("```")\<close>: the pieces between the occurrences of the fence, left to right.\<close>

fun split_fence :: "string \<Rightarrow> string \<Rightarrow> string list" where
  "split_fence cur (a # b # c # rest) =
     (if a = CHR 0x60 \<and> b = CHR 0x60 \<and> c = CHR 0x60 then cur # split_fence [] rest
      else split_fence (cur @ [a]) (b # c # rest))"
| "split_fence cur rest = [cur @ rest]"

definition fence :: string where
  "fence = [CHR 0x60, CHR 0x60, CHR 0x60]"

definition empty_mappings :: json where
  "empty_mappings = JObject [(''mappedNotes'', JArray []), (''mappedProcesses'', JArray [])]"

text \<open>
  Lines 173-178: the text handed to \<open>json.loads\<close>. The two subscripts raise \<open>IndexError\<close>
  when there is no content block, or no second piece after the split.
\<close>

definition response_text :: "string list \<Rightarrow> error + string" where
  "response_text content =
     (case content of
        [] \<Rightarrow> Inl IndexError
      | block # _ \<Rightarrow>
          (let text = py_strip block
           in if prefix fence text
              then (case split_fence [] text of
                      _ # piece # _ \<Rightarrow>
                        Inr (if prefix ''json'' piece then drop 4 piece else piece)
                    | _ \<Rightarrow> Inl IndexError)
              else Inr text))"

text \<open>Lines 173-179: the body of the \<open>try\<close> statement.\<close>

definition try_body :: "json_loads \<Rightarrow> string list \<Rightarrow> error + json" where
  "try_body loads content =
     (case response_text content of Inl e \<Rightarrow> Inl e | Inr text \<Rightarrow> loads text)"

text \<open>
  Lines 172-182, given the content blocks of the response: the \<open>except\<close> clause catches
  \<open>JSONDecodeError\<close> and \<open>IndexError\<close> and answers them with the empty mappings; any other
  exception leaves the function.
\<close>

definition get_llm_mappings :: "json_loads \<Rightarrow> string list \<Rightarrow> error + json" where
  "get_llm_mappings loads content =
     (case try_body loads content of
        Inr v \<Rightarrow> Inr v
      | Inl e \<Rightarrow>
          (if e = JSONDecodeError \<or> e = IndexError then Inr empty_mappings else Inl e))"

subsection \<open>A decoder for concrete responses, and the requested shape\<close>

text \<open>
  A decoder for concrete runs of \<open>get_llm_mappings\<close>. It reads the fragment of JSON that
  the system prompt asks the oracle for, an object whose members are arrays of strings
  without escapes, and returns on it the value \<open>json.loads\<close> returns. A text that opens
  more than \<open>recursion_limit\<close> arrays in a row is answered with \<open>RecursionError\<close>, as the
  library's scanner enters one level of recursion for every opening bracket before it
  looks further; the limit is the interpreter's default of 1000. Every other text is
  answered with \<open>JSONDecodeError\<close>. The general lemmas about \<open>get_llm_mappings\<close> hold for
  any decoder.
\<close>

datatype token = LBrace | RBrace | LBracket | RBracket | Colon | Comma | Str string

fun lex :: "string \<Rightarrow> token list option"
  and lex_str :: "string \<Rightarrow> string \<Rightarrow> token list option" where
  "lex [] = Some []"
| "lex (c # cs) =
     (if c \<in> set [CHR '' '', CHR 0x09, CHR 0x0A, CHR 0x0D] then lex cs
      else if c = CHR ''{'' then map_option (Cons LBrace) (lex cs)
      else if c = CHR ''}'' then map_option (Cons RBrace) (lex cs)
      else if c = CHR ''['' then map_option (Cons LBracket) (lex cs)
      else if c = CHR '']'' then map_option (Cons RBracket) (lex cs)
      else if c = CHR '':'' then map_option (Cons Colon) (lex cs)
      else if c = CHR '','' then map_option (Cons Comma) (lex cs)
      else if c = CHR 0x22 then lex_str [] cs
      else None)"
| "lex_str acc [] = None"
| "lex_str acc (c # cs) =
     (if c = CHR 0x22 then map_option (Cons (Str acc)) (lex cs)
      else if c = CHR 0x5C \<or> (of_char c :: nat) < 32 then None
      else lex_str (acc @ [c]) cs)"

datatype pstate =
    Start | KeyOrClose | Key | AfterKey string | ArrStart string | ItemOrClose string
  | Item string "json list" | AfterItem string "json list" | AfterMember | Done

fun parse :: "pstate \<Rightarrow> (string, json) dict \<Rightarrow> token list \<Rightarrow> json option" where
  "parse st obj [] = (if st = Done then Some (JObject obj) else None)"
| "parse st obj (t # ts) =
     (case (st, t) of
        (Start, LBrace) \<Rightarrow> parse KeyOrClose obj ts
      | (KeyOrClose, RBrace) \<Rightarrow> parse Done obj ts
      | (KeyOrClose, Str k) \<Rightarrow> parse (AfterKey k) obj ts
      | (Key, Str k) \<Rightarrow> parse (AfterKey k) obj ts
      | (AfterKey k, Colon) \<Rightarrow> parse (ArrStart k) obj ts
      | (ArrStart k, LBracket) \<Rightarrow> parse (ItemOrClose k) obj ts
      | (ItemOrClose k, RBracket) \<Rightarrow> parse AfterMember (dict_set obj k (JArray [])) ts
      | (ItemOrClose k, Str s) \<Rightarrow> parse (AfterItem k [JString s]) obj ts
      | (Item k xs, Str s) \<Rightarrow> parse (AfterItem k (xs @ [JString s])) obj ts
      | (AfterItem k xs, Comma) \<Rightarrow> parse (Item k xs) obj ts
      | (AfterItem k xs, RBracket) \<Rightarrow> parse AfterMember (dict_set obj k (JArray xs)) ts
      | (AfterMember, Comma) \<Rightarrow> parse Key obj ts
      | (AfterMember, RBrace) \<Rightarrow> parse Done obj ts
      | _ \<Rightarrow> None)"

fun leading_opens :: "string \<Rightarrow> nat" where
  "leading_opens [] = 0"
| "leading_opens (c # cs) =
     (if c \<in> set [CHR '' '', CHR 0x09, CHR 0x0A, CHR 0x0D] then leading_opens cs
      else if c = CHR ''['' then Suc (leading_opens cs)
      else 0)"

definition recursion_limit :: nat where
  "recursion_limit = 1000"

definition json_loads_flat :: json_loads where
  "json_loads_flat text =
     (if recursion_limit < leading_opens text then Inl RecursionError
      else case lex text of
             None \<Rightarrow> Inl JSONDecodeError
           | Some ts \<Rightarrow>
               (case parse Start [] ts of None \<Rightarrow> Inl JSONDecodeError | Some v \<Rightarrow> Inr v))"

text \<open>
  The shape the system prompt asks for: \<open>mappedNotes\<close> an array of at most 8 strings of
  \<open>ALL_NOTES\<close>, \<open>mappedProcesses\<close> an array of at most 3 elements.
\<close>

fun field :: "string \<Rightarrow> json \<Rightarrow> json list option" where
  "field k (JObject d) = (case map_of d k of Some (JArray xs) \<Rightarrow> Some xs | _ \<Rightarrow> None)"
| "field k v = None"

definition is_note :: "json \<Rightarrow> bool" where
  "is_note x = (case x of JString s \<Rightarrow> s \<in> set ALL_NOTES | _ \<Rightarrow> False)"

definition shape_ok :: "json \<Rightarrow> bool" where
  "shape_ok v =
     (case (field ''mappedNotes'' v, field ''mappedProcesses'' v) of
        (Some ns, Some ps) \<Rightarrow> length ns \<le> 8 \<and> list_all is_note ns \<and> length ps \<le> 3
      | _ \<Rightarrow> False)"

section \<open>Auxiliary notions for the proofs\<close>

text \<open>
  Every loop of the matchers that writes into a dictionary has the shape
  \<open>d[k] = h(d.get(k, z), w)\<close> for a list of entries \<open>(k, w)\<close>.
\<close>

definition merge_with :: "('v \<Rightarrow> 'w \<Rightarrow> 'v) \<Rightarrow> 'v \<Rightarrow> ('k \<times> 'w) list \<Rightarrow> ('k, 'v) dict \<Rightarrow> ('k, 'v) dict" where
  "merge_with h z evs d = fold (\<lambda>(k, w) c. dict_set c k (h (dict_get c k z) w)) evs d"

text \<open>
  What is assumed of the library's \<open>extract\<close>: every match is one of the choices, and its
  score lies between the cutoff and 100.
\<close>

definition extract_sound :: "extractor \<Rightarrow> bool" where
  "extract_sound extract \<longleftrightarrow>
     (\<forall>query choices limit cutoff. \<forall>(c, s, i) \<in> set (extract query choices limit cutoff).
        c \<in> set choices \<and> cutoff \<le> s \<and> s \<le> 100)"

text \<open>
  The per-pass scores of the lexical matcher, following the spec's steps 2 to 4: the
  substring pass and the fuzzy pass of every token of at least 3 characters, then the
  fuzzy pass of the whole query, each as a list of (term, score) in discovery order.
\<close>

definition substring_scores :: "string \<Rightarrow> string list \<Rightarrow> (string \<times> score) list" where
  "substring_scores word notes =
     map (\<lambda>note. (note, 1))
       (filter (\<lambda>note. py_in (lower note) word \<or> py_in word (lower note)) notes)"

definition scaled :: "(string \<times> real \<times> nat) list \<Rightarrow> (string \<times> score) list" where
  "scaled matches = map (\<lambda>(m, s, i). (m, s / 100)) matches"

definition token_scores :: "extractor \<Rightarrow> string list \<Rightarrow> string \<Rightarrow> (string \<times> score) list" where
  "token_scores extract notes word =
     (if length word < 3 then []
      else substring_scores word notes @ scaled (extract word notes 5 60))"

definition pass_scores :: "extractor \<Rightarrow> string \<Rightarrow> string list \<Rightarrow> (string \<times> score) list" where
  "pass_scores extract query notes =
     concat (map (token_scores extract notes) (split (lower query)))
       @ scaled (extract query notes 5 50)"

text \<open>An embedding model that maps every text to the same vector, for concrete runs.\<close>

definition const_encoder :: "vector \<Rightarrow> encoder" where
  "const_encoder v text = v"

text \<open>
  The order of a ranked list: descending by score, and entries of equal score in the
  order in which their terms occur in a given list of terms.
\<close>

definition descending :: "('k \<times> score) list \<Rightarrow> bool" where
  "descending res \<longleftrightarrow> sorted_wrt (\<lambda>a b. snd b \<le> snd a) res"

definition ties_in_order_of :: "'k list \<Rightarrow> ('k \<times> score) list \<Rightarrow> bool" where
  "ties_in_order_of order res \<longleftrightarrow>
     (\<forall>v. subseq (map fst (filter (\<lambda>p. snd p = v) res)) order)"

text \<open>
  What Python promises of \<open>sorted(xs, key=lambda x: x[1], reverse=True)\<close>, whatever the
  algorithm: the result is a rearrangement of \<open>xs\<close>, descending by score, and entries of
  equal score keep the order they have in \<open>xs\<close>.
\<close>

definition stable_descending :: "('k \<times> score) list \<Rightarrow> ('k \<times> score) list \<Rightarrow> bool" where
  "stable_descending xs ys \<longleftrightarrow>
     mset ys = mset xs \<and> descending ys
     \<and> (\<forall>v. filter (\<lambda>p. snd p = v) ys = filter (\<lambda>p. snd p = v) xs)"

text \<open>The order in which the elements of a list are met for the first time.\<close>

primrec discovery_order :: "'k list \<Rightarrow> 'k list" where
  "discovery_order [] = []"
| "discovery_order (x # xs) = x # filter (\<lambda>y. y \<noteq> x) (discovery_order xs)"

section \<open>Insertion-ordered dictionaries\<close>

lemma dict_get_dict_set [simp]:
  "dict_get (dict_set d k v) k' z = (if k' = k then v else dict_get d k' z)"
  by (induction d) auto

lemma key_in_keys: "(k, v) \<in> set d \<Longrightarrow> k \<in> fst ` set d"
  by force

lemma keys_dict_set:
  "map fst (dict_set d k v) = (if k \<in> set (map fst d) then map fst d else map fst d @ [k])"
  by (induction d) (auto dest: key_in_keys)

lemma distinct_dict_set: "distinct (map fst d) \<Longrightarrow> distinct (map fst (dict_set d k v))"
  by (simp add: keys_dict_set)

lemma dict_get_member:
  "distinct (map fst d) \<Longrightarrow> (k, v) \<in> set d \<Longrightarrow> dict_get d k z = v"
  by (induction d) (auto simp: rev_image_eqI)

lemma dict_get_in_set: "k \<in> set (map fst d) \<Longrightarrow> (k, dict_get d k z) \<in> set d"
proof (induction d)
  case Nil
  then show ?case by simp
next
  case (Cons p d)
  obtain a b where p: "p = (a, b)" by (cases p)
  show ?case
  proof (cases "k = a")
    case True
    then show ?thesis using p by simp
  next
    case False
    with Cons.prems p have "k \<in> set (map fst d)" by auto
    from Cons.IH [OF this] False p show ?thesis by simp
  qed
qed

lemma dict_get_default: "k \<notin> set (map fst d) \<Longrightarrow> dict_get d k z = z"
  by (induction d) auto

lemma merge_with_Nil [simp]: "merge_with h z [] d = d"
  by (simp add: merge_with_def)

lemma merge_with_Cons [simp]:
  "merge_with h z ((k, w) # evs) d = merge_with h z evs (dict_set d k (h (dict_get d k z) w))"
  by (simp add: merge_with_def)

lemma merge_with_append: "merge_with h z (xs @ ys) d = merge_with h z ys (merge_with h z xs d)"
  by (simp add: merge_with_def)

lemma distinct_merge_with:
  "distinct (map fst d) \<Longrightarrow> distinct (map fst (merge_with h z evs d))"
  by (induction evs arbitrary: d) (auto simp: distinct_dict_set)

lemma keys_merge_with_set:
  "set (map fst (merge_with h z evs d)) = set (map fst d) \<union> set (map fst evs)"
proof (induction evs arbitrary: d)
  case Nil
  then show ?case by simp
next
  case (Cons p evs)
  obtain k w where p: "p = (k, w)" by (cases p)
  have "set (map fst (dict_set d k (h (dict_get d k z) w))) = insert k (set (map fst d))"
    by (auto simp: keys_dict_set simp del: set_map)
  with Cons.IH [of "dict_set d k (h (dict_get d k z) w)"] show ?case
    unfolding p merge_with_Cons by (auto simp del: set_map)
qed

lemma keys_merge_with:
  "distinct (map fst evs) \<Longrightarrow>
   map fst (merge_with h z evs d) = map fst d @ filter (\<lambda>k. k \<notin> set (map fst d)) (map fst evs)"
proof (induction evs arbitrary: d)
  case Nil
  then show ?case by simp
next
  case (Cons p evs)
  obtain k w where p: "p = (k, w)" by (cases p)
  from Cons.prems p have k: "k \<notin> set (map fst evs)" and dist: "distinct (map fst evs)"
    by auto
  let ?d' = "dict_set d k (h (dict_get d k z) w)"
  have "map fst (merge_with h z (p # evs) d)
      = map fst ?d' @ filter (\<lambda>k. k \<notin> set (map fst ?d')) (map fst evs)"
    using Cons.IH [OF dist, of ?d'] p by simp
  also have "\<dots> = map fst d @ filter (\<lambda>k. k \<notin> set (map fst d)) (map fst (p # evs))"
  proof (cases "k \<in> set (map fst d)")
    case True
    then show ?thesis using p by (simp add: keys_dict_set)
  next
    case False
    have "filter (\<lambda>x. x \<noteq> k \<and> x \<notin> set (map fst d)) (map fst evs)
        = filter (\<lambda>x. x \<notin> set (map fst d)) (map fst evs)"
      using k by (intro filter_cong) auto
    with False show ?thesis using p by (simp add: keys_dict_set)
  qed
  finally show ?case .
qed

text \<open>Additive merging: every entry for a key contributes its weighted value.\<close>

lemma dict_get_merge_with_add:
  "dict_get (merge_with (\<lambda>old w. old + g w) z evs d) t z
     = dict_get d t z + sum_list (map (\<lambda>p. g (snd p)) (filter (\<lambda>p. fst p = t) evs))"
  for z :: real
  by (induction evs arbitrary: d) (auto simp: algebra_simps)

lemma filter_key_distinct:
  "distinct (map fst xs) \<Longrightarrow> (t, v) \<in> set xs \<Longrightarrow> filter (\<lambda>p. fst p = t) xs = [(t, v)]"
proof (induction xs)
  case Nil
  then show ?case by simp
next
  case (Cons p xs)
  show ?case
  proof (cases "fst p = t")
    case True
    with Cons.prems have "p = (t, v)" and "t \<notin> fst ` set xs"
      by (auto simp: rev_image_eqI)
    then have "filter (\<lambda>p. fst p = t) xs = []"
      by (auto simp: filter_empty_conv)
    with \<open>p = (t, v)\<close> show ?thesis by simp
  next
    case False
    with Cons show ?thesis by auto
  qed
qed

text \<open>Max merging: the stored value bounds every entry for the key and is one of them,
  or the value the key had before.\<close>

lemma dict_get_merge_with_max:
  fixes z :: real
  shows "(\<forall>v. (t, v) \<in> set evs \<longrightarrow> v \<le> dict_get (merge_with max z evs d) t z)
       \<and> dict_get d t z \<le> dict_get (merge_with max z evs d) t z
       \<and> (dict_get (merge_with max z evs d) t z = dict_get d t z
            \<or> (t, dict_get (merge_with max z evs d) t z) \<in> set evs)"
proof (induction evs arbitrary: d)
  case Nil
  then show ?case by simp
next
  case (Cons p evs)
  obtain k w where p: "p = (k, w)" by (cases p)
  let ?d' = "dict_set d k (max (dict_get d k z) w)"
  define r where "r = dict_get (merge_with max z evs ?d') t z"
  have res: "dict_get (merge_with max z (p # evs) d) t z = r"
    by (simp add: p r_def)
  have a': "dict_get ?d' t z = (if t = k then max (dict_get d k z) w else dict_get d t z)"
    by simp
  from Cons.IH [of ?d'] have
    ub: "\<forall>v. (t, v) \<in> set evs \<longrightarrow> v \<le> r" and
    lb: "dict_get ?d' t z \<le> r" and
    att: "r = dict_get ?d' t z \<or> (t, r) \<in> set evs"
    unfolding r_def by blast+
  show ?case
    unfolding res using ub lb att unfolding a' p
    by (auto simp: max_def split: if_splits)
qed

section \<open>Properties of the Python primitives\<close>

lemma set_py_slice_to_subset: "set (py_slice_to n xs) \<subseteq> set xs"
  by (auto simp: py_slice_to_def dest: in_set_takeD)

lemma py_slice_to_all: "int (length xs) \<le> n \<Longrightarrow> py_slice_to n xs = xs"
  by (simp add: py_slice_to_def)

lemma set_sorted_desc [simp]: "set (sorted_desc xs) = set xs"
  by (simp add: sorted_desc_def)

lemma length_sorted_desc [simp]: "length (sorted_desc xs) = length xs"
  by (simp add: sorted_desc_def)

lemma keys_sorted_desc_set: "set (map fst (sorted_desc xs)) = set (map fst xs)"
  by (simp add: sorted_desc_def)

lemma distinct_keys_sorted_desc:
  "distinct (map fst xs) \<Longrightarrow> distinct (map fst (sorted_desc xs))"
  by (simp add: sorted_desc_def distinct_map)

lemma distinct_keys_py_slice_to:
  "distinct (map fst xs) \<Longrightarrow> distinct (map fst (py_slice_to n xs))"
  by (simp add: py_slice_to_def take_map [symmetric])

section \<open>The lexical matcher\<close>

lemma py_in_iff: "py_in a b \<longleftrightarrow> (\<exists>p s. b = p @ a @ s)"
proof -
  have "py_in a b \<longleftrightarrow> sublist a b"
    by (induction b) (simp_all add: sublist_Cons_right)
  then show ?thesis by (simp add: sublist_def)
qed

lemma substring_pass_merge:
  "substring_pass word notes c = merge_with max 0 (substring_scores word notes) c"
  unfolding substring_pass_def substring_scores_def
  by (induction "notes" arbitrary: c) simp_all

lemma add_matches_merge: "add_matches ms c = merge_with max 0 (scaled ms) c"
  unfolding add_matches_def scaled_def
  by (induction ms arbitrary: c) (simp_all add: split_beta merge_with_def)

lemma word_pass_merge:
  "word_pass extract notes word c = merge_with max 0 (token_scores extract notes word) c"
  by (simp add: word_pass_def token_scores_def merge_with_append substring_pass_merge
      add_matches_merge)

lemma fold_word_pass_merge:
  "fold (word_pass extract notes) ws c
     = merge_with max 0 (concat (map (token_scores extract notes) ws)) c"
  by (induction ws arbitrary: c) (simp_all add: merge_with_append word_pass_merge)

lemma fuzzy_candidates_merge:
  "fuzzy_candidates extract query notes = merge_with max 0 (pass_scores extract query notes) []"
  by (simp add: fuzzy_candidates_def pass_scores_def merge_with_append add_matches_merge
      fold_word_pass_merge)

lemma distinct_fuzzy_candidates: "distinct (map fst (fuzzy_candidates extract query notes))"
  by (simp add: fuzzy_candidates_merge distinct_merge_with)

lemma distinct_fuzzy_search: "distinct (map fst (fuzzy_search extract query notes limit))"
  by (simp add: fuzzy_search_def distinct_keys_py_slice_to distinct_keys_sorted_desc
      distinct_fuzzy_candidates)

lemma keys_fuzzy_candidates:
  "set (map fst (fuzzy_candidates extract query notes))
     = set (map fst (pass_scores extract query notes))"
  by (simp add: fuzzy_candidates_merge keys_merge_with_set del: set_map)

lemma set_fuzzy_search_subset:
  "set (fuzzy_search extract query notes limit) \<subseteq> set (fuzzy_candidates extract query notes)"
  using set_py_slice_to_subset [of limit "sorted_desc (fuzzy_candidates extract query notes)"]
  by (simp add: fuzzy_search_def)

text \<open>The score of a candidate: an upper bound of its per-pass scores and of 0 that is
  attained.\<close>

lemma fuzzy_candidates_score:
  assumes "(t, s) \<in> set (fuzzy_candidates extract query notes)"
  shows "(\<forall>v. (t, v) \<in> set (pass_scores extract query notes) \<longrightarrow> v \<le> s)"
    and "0 \<le> s"
    and "s = 0 \<or> (t, s) \<in> set (pass_scores extract query notes)"
    and "t \<in> fst ` set (pass_scores extract query notes)"
proof -
  let ?c = "fuzzy_candidates extract query notes" and ?ps = "pass_scores extract query notes"
  have s: "dict_get ?c t 0 = s"
    using assms distinct_fuzzy_candidates by (rule dict_get_member [rotated])
  from dict_get_merge_with_max [of t ?ps 0 "[]"] s
  show "\<forall>v. (t, v) \<in> set ?ps \<longrightarrow> v \<le> s" and "0 \<le> s" and "s = 0 \<or> (t, s) \<in> set ?ps"
    by (simp_all add: fuzzy_candidates_merge)
  from assms have "t \<in> set (map fst ?c)" by force
  then show "t \<in> fst ` set ?ps" by (simp add: keys_fuzzy_candidates del: set_map) simp
qed

lemma pass_scores_sound:
  assumes "extract_sound extract" and "(t, v) \<in> set (pass_scores extract query notes)"
  shows "1 / 2 \<le> v \<and> v \<le> 1 \<and> t \<in> set notes"
proof -
  have sc: "1 / 2 \<le> v \<and> v \<le> 1 \<and> t \<in> set notes"
    if "(t, v) \<in> set (scaled (extract q notes k c))" "50 \<le> c" for q k c
  proof -
    from that(1) obtain s i where m: "(t, s, i) \<in> set (extract q notes k c)" and v: "v = s / 100"
      by (auto simp: scaled_def)
    from assms(1) m have "t \<in> set notes \<and> c \<le> s \<and> s \<le> 100"
      unfolding extract_sound_def by blast
    with v that(2) show ?thesis by simp
  qed
  from assms(2) consider
      (tok) w where "w \<in> set (split (lower query))" "(t, v) \<in> set (token_scores extract notes w)"
    | (full) "(t, v) \<in> set (scaled (extract query notes 5 50))"
    by (auto simp: pass_scores_def)
  then show ?thesis
  proof cases
    case tok
    then consider "(t, v) \<in> set (substring_scores w notes)"
      | "(t, v) \<in> set (scaled (extract w notes 5 60))"
      by (auto simp: token_scores_def split: if_splits)
    then show ?thesis
    proof cases
      case 1
      then show ?thesis by (auto simp: substring_scores_def)
    next
      case 2
      then show ?thesis using sc [of w 5 60] by simp
    qed
  next
    case full
    then show ?thesis using sc [of query 5 50] by simp
  qed
qed

subsection \<open>The model of the library's scorer is sound\<close>

lemma lcs_row_le:
  "\<forall>r \<in> set row. r \<le> B \<Longrightarrow> diag \<le> B \<Longrightarrow> left \<le> Suc B \<Longrightarrow>
   \<forall>v \<in> set (lcs_row x ys row diag left). v \<le> Suc B"
  by (induction x ys row diag left rule: lcs_row.induct) (auto simp: Let_def)

lemma lcs_fold_le:
  "\<forall>r \<in> set row. r \<le> B \<Longrightarrow>
   \<forall>v \<in> set (fold (\<lambda>x row. lcs_row x ys row 0 0) xs row). v \<le> B + length xs"
proof (induction xs arbitrary: row B)
  case Nil
  then show ?case by simp
next
  case (Cons x xs)
  have "\<forall>v \<in> set (lcs_row x ys row 0 0). v \<le> Suc B"
    using Cons.prems by (intro lcs_row_le) auto
  from Cons.IH [OF this] show ?case by simp
qed

lemma lcs_le_left: "lcs xs ys \<le> length xs"
proof -
  let ?row = "fold (\<lambda>x row. lcs_row x ys row 0 0) xs (replicate (length ys) 0)"
  have "\<forall>v \<in> set ?row. v \<le> 0 + length xs"
    by (intro lcs_fold_le) simp
  moreover have "last (0 # ?row) \<in> set (0 # ?row)"
    by (rule last_in_set) simp
  ultimately show ?thesis
    unfolding lcs_def by auto
qed

lemma lcs_row_col:
  "\<forall>j < length row. row ! j \<le> off + Suc j \<Longrightarrow> diag \<le> off \<Longrightarrow> left \<le> off \<Longrightarrow>
   \<forall>j < length (lcs_row x ys row diag left). lcs_row x ys row diag left ! j \<le> off + Suc j"
proof (induction x ys row diag left arbitrary: off rule: lcs_row.induct)
  case (1 x y ys r rs diag left)
  define v where "v = (if x = y then Suc diag else max r left)"
  have r: "r \<le> Suc off" using "1.prems"(1) by fastforce
  have v: "v \<le> Suc off" using "1.prems"(2,3) r by (simp add: v_def)
  have rs: "\<forall>j < length rs. rs ! j \<le> Suc off + Suc j"
    using "1.prems"(1) by fastforce
  have IH: "\<forall>j < length (lcs_row x ys rs r v). lcs_row x ys rs r v ! j \<le> Suc off + Suc j"
  proof (cases "x = y")
    case True
    then have "v = Suc diag" by (simp add: v_def)
    with "1.IH"(1) [OF True rs r] v show ?thesis by simp
  next
    case False
    then have "v = max r left" by (simp add: v_def)
    with "1.IH"(2) [OF False rs r] v show ?thesis by simp
  qed
  have unfold: "lcs_row x (y # ys) (r # rs) diag left = v # lcs_row x ys rs r v"
    by (simp add: v_def)
  show ?case
  proof (intro allI impI)
    fix j assume "j < length (lcs_row x (y # ys) (r # rs) diag left)"
    then show "lcs_row x (y # ys) (r # rs) diag left ! j \<le> off + Suc j"
      unfolding unfold using IH v by (cases j) auto
  qed
qed simp_all

lemma length_lcs_row: "length (lcs_row x ys row diag left) = min (length ys) (length row)"
  by (induction x ys row diag left rule: lcs_row.induct) (auto simp: Let_def)

lemma lcs_fold_col:
  "\<forall>j < length row. row ! j \<le> Suc j \<Longrightarrow>
   \<forall>j < length (fold (\<lambda>x row. lcs_row x ys row 0 0) xs row).
      fold (\<lambda>x row. lcs_row x ys row 0 0) xs row ! j \<le> Suc j"
proof (induction xs arbitrary: row)
  case Nil
  then show ?case by simp
next
  case (Cons x xs)
  have "\<forall>j < length (lcs_row x ys row 0 0). lcs_row x ys row 0 0 ! j \<le> 0 + Suc j"
    using Cons.prems by (intro lcs_row_col) auto
  then show ?case using Cons.IH [of "lcs_row x ys row 0 0"] by simp
qed

lemma length_lcs_fold:
  "length (fold (\<lambda>x row. lcs_row x ys row 0 0) xs row) \<le> length row"
proof (induction xs arbitrary: row)
  case Nil
  then show ?case by simp
next
  case (Cons x xs)
  have "length (fold (\<lambda>x row. lcs_row x ys row 0 0) xs (lcs_row x ys row 0 0))
      \<le> length (lcs_row x ys row 0 0)"
    by (rule Cons.IH)
  also have "\<dots> \<le> length row"
    by (simp add: length_lcs_row)
  finally show ?case by simp
qed

lemma lcs_le_right: "lcs xs ys \<le> length ys"
proof -
  let ?row = "fold (\<lambda>x row. lcs_row x ys row 0 0) xs (replicate (length ys) 0)"
  have col: "\<forall>j < length ?row. ?row ! j \<le> Suc j"
    by (intro lcs_fold_col) simp
  have len: "length ?row \<le> length ys"
    using length_lcs_fold [of ys xs "replicate (length ys) 0"] by simp
  show ?thesis
  proof (cases "?row = []")
    case True
    then show ?thesis by (simp add: lcs_def)
  next
    case False
    then have "last (0 # ?row) = ?row ! (length ?row - 1)"
      by (simp add: last_conv_nth)
    moreover have "length ?row - 1 < length ?row"
      using False by simp
    then have "?row ! (length ?row - 1) \<le> Suc (length ?row - 1)"
      using col by blast
    moreover have "Suc (length ?row - 1) = length ?row"
      using False by simp
    ultimately show ?thesis
      using len unfolding lcs_def by linarith
  qed
qed

lemma ratio_le_100: "ratio a b \<le> 100"
proof -
  have "2 * lcs a b \<le> length a + length b"
    using lcs_le_left [of a b] lcs_le_right [of a b] by linarith
  then have "real (2 * lcs a b) \<le> real (length a + length b)"
    by (rule of_nat_mono)
  then show ?thesis
    by (simp add: ratio_def divide_le_eq)
qed

lemma extract_ratio_sound: "extract_sound extract_ratio"
proof -
  have "c \<in> set choices \<and> cutoff \<le> s \<and> s \<le> 100"
    if "(c, s, i) \<in> set (extract_ratio query choices limit cutoff)"
    for query choices limit cutoff c s i
  proof -
    from that have "(c, s, i) \<in> set (filter (\<lambda>(c, s, i). cutoff \<le> s)
        (map (\<lambda>(i, c). (c, ratio query c, i)) (enumerate 0 choices)))"
      unfolding extract_ratio_def by (auto dest: in_set_takeD)
    then have "cutoff \<le> s" and "s = ratio query c" and "(i, c) \<in> set (enumerate 0 choices)"
      by auto
    then show ?thesis
      by (auto simp: in_set_enumerate_eq ratio_le_100)
  qed
  then show ?thesis
    unfolding extract_sound_def by blast
qed

lemma length_fuzzy_candidates:
  assumes "extract_sound extract"
  shows "length (fuzzy_candidates extract query notes) \<le> length notes"
proof -
  let ?c = "fuzzy_candidates extract query notes"
  have "x \<in> set notes" if "x \<in> set (map fst ?c)" for x
  proof -
    from that have "x \<in> set (map fst (pass_scores extract query notes))"
      by (simp only: keys_fuzzy_candidates)
    then obtain v where "(x, v) \<in> set (pass_scores extract query notes)"
      by auto
    with pass_scores_sound [OF assms] show ?thesis by blast
  qed
  then have "set (map fst ?c) \<subseteq> set notes"
    by blast
  then have "card (set (map fst ?c)) \<le> card (set notes)"
    by (intro card_mono) auto
  moreover have "card (set (map fst ?c)) = length (map fst ?c)"
    using distinct_fuzzy_candidates by (rule distinct_card)
  ultimately show ?thesis
    using card_length [of "notes"] by simp
qed

lemma fuzzy_search_all:
  assumes "extract_sound extract" and "int (length notes) \<le> limit"
  shows "set (fuzzy_search extract query notes limit) = set (fuzzy_candidates extract query notes)"
proof -
  have "int (length (sorted_desc (fuzzy_candidates extract query notes))) \<le> limit"
    using length_fuzzy_candidates [OF assms(1), of query "notes"] assms(2) by simp
  then show ?thesis
    by (simp add: fuzzy_search_def py_slice_to_all)
qed

lemma substring_match_score:
  assumes sound: "extract_sound extract"
    and word: "word \<in> set (split (lower query))" "3 \<le> length word"
    and in_notes: "note \<in> set notes"
    and sub: "(\<exists>p s. word = p @ lower note @ s) \<or> (\<exists>p s. lower note = p @ word @ s)"
  shows "(note, 1) \<in> set (fuzzy_candidates extract query notes)"
    and "(note, s) \<in> set (fuzzy_search extract query notes limit) \<Longrightarrow> s = 1"
    and "int (length notes) \<le> limit \<Longrightarrow> (note, 1) \<in> set (fuzzy_search extract query notes limit)"
proof -
  let ?c = "fuzzy_candidates extract query notes" and ?ps = "pass_scores extract query notes"
  from sub have "py_in (lower note) word \<or> py_in word (lower note)"
    by (simp add: py_in_iff)
  with in_notes have "(note, 1) \<in> set (substring_scores word notes)"
    by (simp add: substring_scores_def)
  with word have ev: "(note, 1) \<in> set ?ps"
    by (auto simp: pass_scores_def token_scores_def)
  then have "note \<in> set (map fst ?c)"
    by (simp add: keys_fuzzy_candidates del: set_map) force
  then have mem: "(note, dict_get ?c note 0) \<in> set ?c"
    by (rule dict_get_in_set)
  from fuzzy_candidates_score [OF mem] ev pass_scores_sound [OF sound]
  have "dict_get ?c note 0 = 1"
    by (metis order_antisym zero_le_one)
  with mem show c: "(note, 1) \<in> set ?c" by simp
  show "s = 1" if "(note, s) \<in> set (fuzzy_search extract query notes limit)"
  proof -
    from that set_fuzzy_search_subset have "(note, s) \<in> set ?c" by blast
    with c distinct_fuzzy_candidates show ?thesis
      by (metis dict_get_member)
  qed
  show "(note, 1) \<in> set (fuzzy_search extract query notes limit)" if "int (length notes) \<le> limit"
    using c fuzzy_search_all [OF sound that] by simp
qed

text \<open>
  Claim C3. Substring-match guarantee: for the vocabulary ["berry", "cherry"] and the query
  "berrylicious" the lexical matcher returns "berry" with score 1; and whenever a token of
  at least three characters contains the lower-cased vocabulary term, or is contained in
  it, the term's score is exactly 1 (in the candidate mapping, and in the returned list
  whenever the term is returned, which it is when the limit does not truncate). The
  library's extractor is assumed to return choices with scores of at most 100.
\<close>

theorem fuzzy_search_substring_match:
  assumes sound: "extract_sound extract"
  shows "(''berry'', 1) \<in> set (fuzzy_search extract ''berrylicious'' [''berry'', ''cherry''] 10)
       \<and> (\<forall>word \<in> set (split (lower query)). \<forall>note \<in> set notes.
            3 \<le> length word
            \<and> ((\<exists>p s. word = p @ lower note @ s) \<or> (\<exists>p s. lower note = p @ word @ s)) \<longrightarrow>
              (note, 1) \<in> set (fuzzy_candidates extract query notes)
            \<and> (\<forall>limit s. (note, s) \<in> set (fuzzy_search extract query notes limit) \<longrightarrow> s = 1)
            \<and> (\<forall>limit. int (length notes) \<le> limit \<longrightarrow>
                 (note, 1) \<in> set (fuzzy_search extract query notes limit)))"
proof -
  have tokens: "split (lower ''berrylicious'') = [''berrylicious'']"
    by code_simp
  have low: "lower ''berry'' = ''berry''"
    by code_simp
  have "''berrylicious'' = [] @ lower ''berry'' @ ''licious''"
    unfolding low by simp
  then have sub: "(\<exists>p s. ''berrylicious'' = p @ lower ''berry'' @ s)
           \<or> (\<exists>p s. lower ''berry'' = p @ ''berrylicious'' @ s)"
    by blast
  have w: "''berrylicious'' \<in> set (split (lower ''berrylicious''))"
    unfolding tokens by simp
  have len: "3 \<le> length ''berrylicious''" by simp
  have mem: "''berry'' \<in> set [''berry'', ''cherry'']" by simp
  have lim: "int (length [''berry'', ''cherry'']) \<le> 10" by simp
  have concrete:
    "(''berry'', 1) \<in> set (fuzzy_search extract ''berrylicious'' [''berry'', ''cherry''] 10)"
    using sound w len mem sub lim by (rule substring_match_score(3))
  have general:
    "(nt, 1) \<in> set (fuzzy_candidates extract query notes)
     \<and> (\<forall>limit s. (nt, s) \<in> set (fuzzy_search extract query notes limit) \<longrightarrow> s = 1)
     \<and> (\<forall>limit. int (length notes) \<le> limit \<longrightarrow>
          (nt, 1) \<in> set (fuzzy_search extract query notes limit))"
    if "word \<in> set (split (lower query))" "nt \<in> set notes" "3 \<le> length word"
       "(\<exists>p s. word = p @ lower nt @ s) \<or> (\<exists>p s. lower nt = p @ word @ s)"
    for word nt
  proof (intro conjI allI impI)
    show "(nt, 1) \<in> set (fuzzy_candidates extract query notes)"
      using sound that(1,3,2,4) by (rule substring_match_score(1))
    show "s = 1" if "(nt, s) \<in> set (fuzzy_search extract query notes limit)" for limit s
      using sound \<open>word \<in> set (split (lower query))\<close> \<open>3 \<le> length word\<close>
        \<open>nt \<in> set notes\<close>
        \<open>(\<exists>p s. word = p @ lower nt @ s) \<or> (\<exists>p s. lower nt = p @ word @ s)\<close> that
      by (rule substring_match_score(2))
    show "(nt, 1) \<in> set (fuzzy_search extract query notes limit)"
      if "int (length notes) \<le> limit" for limit
      using sound \<open>word \<in> set (split (lower query))\<close> \<open>3 \<le> length word\<close>
        \<open>nt \<in> set notes\<close>
        \<open>(\<exists>p s. word = p @ lower nt @ s) \<or> (\<exists>p s. lower nt = p @ word @ s)\<close> that
      by (rule substring_match_score(3))
  qed
  show ?thesis
  proof (rule conjI [OF concrete], intro ballI impI)
    fix word nt
    assume "word \<in> set (split (lower query))" "nt \<in> set notes"
      and "3 \<le> length word
        \<and> ((\<exists>p s. word = p @ lower nt @ s) \<or> (\<exists>p s. lower nt = p @ word @ s))"
    then show "(nt, 1) \<in> set (fuzzy_candidates extract query notes)
     \<and> (\<forall>limit s. (nt, s) \<in> set (fuzzy_search extract query notes limit) \<longrightarrow> s = 1)
     \<and> (\<forall>limit. int (length notes) \<le> limit \<longrightarrow>
          (nt, 1) \<in> set (fuzzy_search extract query notes limit))"
      using general by blast
  qed
qed

theorem fuzzy_search_substring_match_witness:
  "extract_sound extract_ratio
   \<and> split (lower ''Stone Fruit'') = [''stone'', ''fruit'']
   \<and> lower ''stone fruit'' = [] @ ''stone'' @ '' fruit''
   \<and> fuzzy_search extract_ratio ''berrylicious'' [''berry'', ''cherry''] 10 = [(''berry'', 1)]
   \<and> fuzzy_candidates extract_ratio ''Stone Fruit'' [''stone fruit'', ''tea'']
       = [(''stone fruit'', 1)]
   \<and> (''stone fruit'', 1)
       \<in> set (fuzzy_search extract_ratio ''Stone Fruit'' [''stone fruit'', ''tea''] 2)"
proof -
  have tokens: "split (lower ''Stone Fruit'') = [''stone'', ''fruit'']"
    by code_simp
  have low: "lower ''stone fruit'' = [] @ ''stone'' @ '' fruit''"
    by code_simp
  have berry: "fuzzy_search extract_ratio ''berrylicious'' [''berry'', ''cherry''] 10
      = [(''berry'', 1)]"
    by code_simp
  have cands: "fuzzy_candidates extract_ratio ''Stone Fruit'' [''stone fruit'', ''tea'']
      = [(''stone fruit'', 1)]"
    by code_simp
  have w: "''stone'' \<in> set (split (lower ''Stone Fruit''))"
    unfolding tokens by simp
  have n: "''stone fruit'' \<in> set [''stone fruit'', ''tea'']"
    by simp
  have hyp: "3 \<le> length ''stone''
        \<and> ((\<exists>p s. ''stone'' = p @ lower ''stone fruit'' @ s)
           \<or> (\<exists>p s. lower ''stone fruit'' = p @ ''stone'' @ s))"
    using low by (intro conjI disjI2 exI [of _ "[]"] exI [of _ "'' fruit''"]) simp_all
  have lim: "int (length [''stone fruit'', ''tea'']) \<le> 2"
    by simp
  from fuzzy_search_substring_match [OF extract_ratio_sound,
        of "''Stone Fruit''" "[''stone fruit'', ''tea'']"]
  have "\<forall>word \<in> set (split (lower ''Stone Fruit'')). \<forall>note \<in> set [''stone fruit'', ''tea''].
            3 \<le> length word
            \<and> ((\<exists>p s. word = p @ lower note @ s) \<or> (\<exists>p s. lower note = p @ word @ s)) \<longrightarrow>
              (note, 1) \<in> set (fuzzy_candidates extract_ratio ''Stone Fruit'' [''stone fruit'', ''tea''])
            \<and> (\<forall>limit s. (note, s) \<in> set (fuzzy_search extract_ratio ''Stone Fruit'' [''stone fruit'', ''tea''] limit) \<longrightarrow> s = 1)
            \<and> (\<forall>limit. int (length [''stone fruit'', ''tea'']) \<le> limit \<longrightarrow>
                 (note, 1) \<in> set (fuzzy_search extract_ratio ''Stone Fruit'' [''stone fruit'', ''tea''] limit))"
    by (rule conjunct2)
  from this [rule_format, OF w n hyp] lim
  have "(''stone fruit'', 1)
      \<in> set (fuzzy_search extract_ratio ''Stone Fruit'' [''stone fruit'', ''tea''] 2)"
    by blast
  with extract_ratio_sound tokens low berry cands show ?thesis
    by blast
qed

text \<open>
  Claim C4. Max-merge within the lexical matcher: the score of a term is the maximum of its
  per-pass scores (substring, per-token fuzzy, whole-query fuzzy) together with the default
  0 of \<open>candidates.get\<close>; with an extractor whose scores respect the cutoff it is the
  maximum of the per-pass scores. The terms that get a score are those seen in some pass.
\<close>

theorem fuzzy_search_max_merge:
  assumes "(t, s) \<in> set (fuzzy_candidates extract query notes)
         \<or> (t, s) \<in> set (fuzzy_search extract query notes limit)"
  shows "s = Max (insert 0 {v. (t, v) \<in> set (pass_scores extract query notes)})
       \<and> (extract_sound extract \<longrightarrow> s = Max {v. (t, v) \<in> set (pass_scores extract query notes)})
       \<and> fst ` set (fuzzy_candidates extract query notes)
           = fst ` set (pass_scores extract query notes)"
proof -
  let ?ps = "pass_scores extract query notes"
  let ?S = "{v. (t, v) \<in> set ?ps}"
  from assms set_fuzzy_search_subset
  have mem: "(t, s) \<in> set (fuzzy_candidates extract query notes)" by blast
  note sc = fuzzy_candidates_score [OF mem]
  have "?S = snd ` {p \<in> set ?ps. fst p = t}" by force
  then have fin: "finite ?S" by simp
  have a: "Max (insert 0 ?S) = s"
    using fin sc(1,2,3) by (intro Max_eqI) auto
  have b: "Max ?S = s" if sound: "extract_sound extract"
  proof -
    from sc(4) obtain v where v: "(t, v) \<in> set ?ps" by auto
    with pass_scores_sound [OF sound v] sc(1) have "0 < s" by fastforce
    with sc(3) have "(t, s) \<in> set ?ps" by simp
    with fin sc(1) show ?thesis by (intro Max_eqI) auto
  qed
  have c: "fst ` set (fuzzy_candidates extract query notes) = fst ` set ?ps"
    using keys_fuzzy_candidates [of "extract" query "notes"] by simp
  from a b c show ?thesis by auto
qed

theorem fuzzy_search_max_merge_witness:
  "pass_scores extract_ratio ''choclate'' [''chocolate'', ''dark chocolate'']
     = [(''chocolate'', 16/17), (''dark chocolate'', 8/11),
        (''chocolate'', 16/17), (''dark chocolate'', 8/11)]
   \<and> fuzzy_search extract_ratio ''choclate'' [''chocolate'', ''dark chocolate''] 10
     = [(''chocolate'', 16/17), (''dark chocolate'', 8/11)]
   \<and> extract_sound extract_ratio
   \<and> (16/17 :: real) = Max {v. (''chocolate'', v) \<in>
        set (pass_scores extract_ratio ''choclate'' [''chocolate'', ''dark chocolate''])}"
proof -
  let ?notes = "[''chocolate'', ''dark chocolate'']"
  have ps: "pass_scores extract_ratio ''choclate'' ?notes
     = [(''chocolate'', 16/17), (''dark chocolate'', 8/11),
        (''chocolate'', 16/17), (''dark chocolate'', 8/11)]"
    by code_simp
  have res: "fuzzy_search extract_ratio ''choclate'' ?notes 10
     = [(''chocolate'', 16/17), (''dark chocolate'', 8/11)]"
    by code_simp
  have "(''chocolate'', 16/17) \<in> set (fuzzy_search extract_ratio ''choclate'' ?notes 10)"
    by (simp add: res)
  then have "(16/17 :: real) = Max {v. (''chocolate'', v) \<in>
        set (pass_scores extract_ratio ''choclate'' ?notes)}"
    using fuzzy_search_max_merge [of "''chocolate''" "16/17" extract_ratio "''choclate''" ?notes 10]
      extract_ratio_sound by blast
  with ps res extract_ratio_sound show ?thesis by blast
qed

section \<open>The semantic matcher\<close>

lemma similarities_loop_set:
  "similarities_loop q th embs acc = Inr sims \<Longrightarrow>
   set sims = set acc \<union> {(n, s). \<exists>e. (n, e) \<in> set embs \<and> dot q e = Inr s \<and> th \<le> s}"
proof (induction embs arbitrary: acc)
  case Nil
  then show ?case by simp
next
  case (Cons p embs)
  obtain n e where p: "p = (n, e)" by (cases p)
  from Cons.prems p obtain s where s: "dot q e = Inr s"
    and rest: "similarities_loop q th embs (if th \<le> s then acc @ [(n, s)] else acc) = Inr sims"
    by (auto split: sum.splits)
  from Cons.IH [OF rest] s p show ?case
    by (auto split: if_splits)
qed

lemma similarities_loop_length:
  "similarities_loop q th embs acc = Inr sims \<Longrightarrow> length sims \<le> length acc + length embs"
proof (induction embs arbitrary: acc)
  case Nil
  then show ?case by simp
next
  case (Cons p embs)
  obtain n e where p: "p = (n, e)" by (cases p)
  from Cons.prems p obtain s where
    rest: "similarities_loop q th embs (if th \<le> s then acc @ [(n, s)] else acc) = Inr sims"
    by (auto split: sum.splits)
  from Cons.IH [OF rest] show ?case
    by (simp split: if_splits)
qed

text \<open>
  Claim C5. Threshold boundary of the semantic matcher: an embedding whose similarity with
  the query embedding equals the threshold is in the candidate list \<open>similarities\<close> of
  \<open>vector_search\<close>, and one strictly below the threshold is not; the same entry is absent
  from the returned list when below the threshold, and present in it when at the threshold
  and the limit does not truncate.
\<close>

theorem vector_search_threshold_boundary:
  assumes keys: "distinct (map fst note_embeddings)"
    and entry: "(note, embedding) \<in> set note_embeddings"
    and sim: "dot (model (''query: '' @ query)) embedding = Inr similarity"
    and cands: "vector_candidates query model note_embeddings threshold = Inr similarities"
  shows "(similarity = threshold \<longrightarrow> (note, similarity) \<in> set similarities)
       \<and> (similarity < threshold \<longrightarrow> note \<notin> fst ` set similarities)
       \<and> (\<forall>limit res. vector_search query model note_embeddings limit threshold = Inr res \<longrightarrow>
            (similarity < threshold \<longrightarrow> note \<notin> fst ` set res)
          \<and> (similarity = threshold \<and> int (length note_embeddings) \<le> limit \<longrightarrow>
               (note, similarity) \<in> set res))"
proof -
  let ?q = "model (''query: '' @ query)"
  have set_eq: "set similarities =
      {(n, s). \<exists>e. (n, e) \<in> set note_embeddings \<and> dot ?q e = Inr s \<and> threshold \<le> s}"
    using similarities_loop_set [of ?q threshold note_embeddings "[]" similarities] cands
    by (simp add: vector_candidates_def)
  have unique: "e = embedding" if "(note, e) \<in> set note_embeddings" for e
    using keys entry that by (meson eq_key_imp_eq_value)
  have incl: "similarity = threshold \<longrightarrow> (note, similarity) \<in> set similarities"
    using set_eq entry sim by auto
  have excl: "similarity < threshold \<longrightarrow> note \<notin> fst ` set similarities"
  proof (intro impI notI)
    assume lt: "similarity < threshold" and "note \<in> fst ` set similarities"
    then obtain s where "(note, s) \<in> set similarities" by auto
    with set_eq obtain e where "(note, e) \<in> set note_embeddings" "dot ?q e = Inr s" "threshold \<le> s"
      by auto
    with unique sim lt show False by auto
  qed
  have len: "length similarities \<le> length note_embeddings"
    using similarities_loop_length [of ?q threshold note_embeddings "[]" similarities] cands
    by (simp add: vector_candidates_def)
  have res: "(similarity < threshold \<longrightarrow> note \<notin> fst ` set res)
          \<and> (similarity = threshold \<and> int (length note_embeddings) \<le> limit \<longrightarrow>
               (note, similarity) \<in> set res)"
    if "vector_search query model note_embeddings limit threshold = Inr res" for limit res
  proof -
    from that cands have r: "res = py_slice_to limit (sorted_desc similarities)"
      by (simp add: vector_search_def)
    have "set res \<subseteq> set similarities"
      unfolding r using set_py_slice_to_subset [of limit "sorted_desc similarities"] by simp
    with excl have a: "similarity < threshold \<longrightarrow> note \<notin> fst ` set res" by auto
    have b: "(note, similarity) \<in> set res"
      if "similarity = threshold" "int (length note_embeddings) \<le> limit"
    proof -
      from that(2) len have "int (length (sorted_desc similarities)) \<le> limit" by simp
      then have "res = sorted_desc similarities" unfolding r by (rule py_slice_to_all)
      with incl that(1) show ?thesis by simp
    qed
    from a b show ?thesis by blast
  qed
  from incl excl res show ?thesis by blast
qed

theorem vector_search_threshold_boundary_witness:
  "distinct (map fst [(''zzz'', [0, 1]), (''ab'', [3/5, 4/5 :: real])])
   \<and> vector_candidates ''zzz'' (\<lambda>_. [1, 0]) [(''zzz'', [0, 1]), (''ab'', [3/5, 4/5])] (3/5)
       = Inr [(''ab'', 3/5)]
   \<and> dot [1, 0] [3/5, 4/5] = Inr (3/5)
   \<and> dot [1, 0] [0, 1] = Inr 0
   \<and> (''ab'', 3/5) \<in> set [(''ab'', 3/5 :: real)]
   \<and> ''zzz'' \<notin> fst ` set [(''ab'', 3/5 :: real)]
   \<and> vector_search ''zzz'' (\<lambda>_. [1, 0]) [(''zzz'', [0, 1]), (''ab'', [3/5, 4/5])] 10 (3/5)
       = Inr [(''ab'', 3/5)]"
proof -
  let ?embs = "[(''zzz'', [0, 1]), (''ab'', [3/5, 4/5 :: real])]"
  let ?model = "\<lambda>_ :: string. [1, 0 :: real]"
  have keys: "distinct (map fst ?embs)" by simp
  have cands: "vector_candidates ''zzz'' ?model ?embs (3/5) = Inr [(''ab'', 3/5)]"
    by (simp add: vector_candidates_def dot_def)
  have d1: "dot [1, 0] [3/5, 4/5] = Inr (3/5)" and d2: "dot [1, 0] [0, 1] = Inr 0"
    by (simp_all add: dot_def)
  have a: "(''ab'', 3/5) \<in> set [(''ab'', 3/5 :: real)]"
    using vector_search_threshold_boundary [OF keys _ _ cands, of "''ab''" "[3/5, 4/5]" "3/5"] d1
    by simp
  have b: "''zzz'' \<notin> fst ` set [(''ab'', 3/5 :: real)]"
    using vector_search_threshold_boundary [OF keys _ _ cands, of "''zzz''" "[0, 1]" "0"] d2
    by simp
  have c: "vector_search ''zzz'' ?model ?embs 10 (3/5) = Inr [(''ab'', 3/5)]"
    using vector_search_threshold_boundary [OF keys _ _ cands, of "''ab''" "[3/5, 4/5]" "3/5"] d1
    by (simp add: vector_search_def cands py_slice_to_def sorted_desc_def)
  from keys cands d1 d2 a b c show ?thesis by blast
qed

section \<open>Sorting and slicing\<close>

lemma descending_sorted_desc: "descending (sorted_desc xs)"
proof -
  have "sorted (map (\<lambda>p. - snd p) (sort_key (\<lambda>p. - snd p) xs))"
    by (rule sorted_sort_key)
  then show ?thesis
    by (simp add: descending_def sorted_desc_def sorted_map)
qed

lemma descending_py_slice_to: "descending xs \<Longrightarrow> descending (py_slice_to n xs)"
  by (simp add: descending_def py_slice_to_def)

lemma sorted_desc_stable:
  "filter (\<lambda>p. snd p = v) (sorted_desc xs) = filter (\<lambda>p. snd p = v) xs"
  using sort_key_stable [of "\<lambda>p. - snd p" "- v" xs]
  by (simp add: sorted_desc_def)

lemma prefix_py_slice_to: "prefix (py_slice_to n xs) xs"
  by (simp add: py_slice_to_def take_is_prefix)

lemma ties_sorted_slice: "ties_in_order_of (map fst xs) (py_slice_to n (sorted_desc xs))"
proof -
  have "subseq (map fst (filter (\<lambda>p. snd p = v) (py_slice_to n (sorted_desc xs)))) (map fst xs)"
    for v
  proof -
    have "prefix (filter (\<lambda>p. snd p = v) (py_slice_to n (sorted_desc xs)))
            (filter (\<lambda>p. snd p = v) (sorted_desc xs))"
      by (intro filter_mono_prefix prefix_py_slice_to)
    then have "subseq (filter (\<lambda>p. snd p = v) (py_slice_to n (sorted_desc xs)))
            (filter (\<lambda>p. snd p = v) xs)"
      unfolding sorted_desc_stable by (rule prefix_imp_subseq)
    then have "subseq (filter (\<lambda>p. snd p = v) (py_slice_to n (sorted_desc xs))) xs"
      by (rule subseq_order.order_trans) simp
    then show ?thesis
      by (rule subseq_map)
  qed
  then show ?thesis
    by (simp add: ties_in_order_of_def)
qed

section \<open>The semantic matcher, continued\<close>

lemma similarities_loop_distinct:
  "similarities_loop q th embs acc = Inr sims \<Longrightarrow> distinct (map fst embs) \<Longrightarrow>
   distinct (map fst acc) \<Longrightarrow> set (map fst acc) \<inter> set (map fst embs) = {} \<Longrightarrow>
   distinct (map fst sims)"
proof (induction embs arbitrary: acc)
  case Nil
  then show ?case by simp
next
  case (Cons p embs)
  obtain n e where p: "p = (n, e)" by (cases p)
  from Cons.prems(1) p obtain s where
    rest: "similarities_loop q th embs (if th \<le> s then acc @ [(n, s)] else acc) = Inr sims"
    by (auto split: sum.splits)
  let ?acc = "if th \<le> s then acc @ [(n, s)] else acc"
  have "distinct (map fst embs)" using Cons.prems(2) by simp
  moreover have "distinct (map fst ?acc)"
    using Cons.prems(3,4) p by auto
  moreover have "set (map fst ?acc) \<inter> set (map fst embs) = {}"
    using Cons.prems(2,4) p by auto
  ultimately show ?case
    by (rule Cons.IH [OF rest])
qed

lemma vector_search_Inr:
  assumes "vector_search query model note_embeddings limit threshold = Inr vr"
  obtains sims where "vector_candidates query model note_embeddings threshold = Inr sims"
    and "vr = py_slice_to limit (sorted_desc sims)"
  using assms by (auto simp: vector_search_def split: sum.splits)

lemma distinct_vector_search:
  assumes "vector_search query model note_embeddings limit threshold = Inr vr"
    and "distinct (map fst note_embeddings)"
  shows "distinct (map fst vr)"
proof -
  from assms(1) obtain sims where
    c: "vector_candidates query model note_embeddings threshold = Inr sims"
    and vr: "vr = py_slice_to limit (sorted_desc sims)"
    by (rule vector_search_Inr)
  from c have "distinct (map fst sims)"
    unfolding vector_candidates_def
    by (rule similarities_loop_distinct) (simp_all add: assms(2))
  then show ?thesis
    unfolding vr by (intro distinct_keys_py_slice_to distinct_keys_sorted_desc)
qed

lemma vector_search_above_threshold:
  assumes "vector_search query model note_embeddings limit threshold = Inr vr"
    and "(t, s) \<in> set vr"
  shows "threshold \<le> s"
proof -
  from assms(1) obtain sims where
    c: "vector_candidates query model note_embeddings threshold = Inr sims"
    and vr: "vr = py_slice_to limit (sorted_desc sims)"
    by (rule vector_search_Inr)
  from assms(2) have "(t, s) \<in> set sims"
    unfolding vr using set_py_slice_to_subset [of limit "sorted_desc sims"] by auto
  with similarities_loop_set [OF c [unfolded vector_candidates_def]] show ?thesis
    by auto
qed

section \<open>The fusion ranker\<close>

lemma add_fuzzy_merge: "add_fuzzy fr d = merge_with (\<lambda>old s. old + s * 0.4) 0 fr d"
  by (simp add: add_fuzzy_def merge_with_def)

lemma add_vector_merge:
  "1 - th \<noteq> 0 \<Longrightarrow>
   add_vector th vr d = Inr (merge_with (\<lambda>old s. old + (s - th) / (1 - th) * 0.6) 0 vr d)"
  by (induction th vr d rule: add_vector.induct) simp_all

lemma add_vector_Inr:
  assumes "add_vector th vr d = Inr c"
  shows "vr = [] \<or> 1 - th \<noteq> 0"
    and "c = merge_with (\<lambda>old s. old + (s - th) / (1 - th) * 0.6) 0 vr d"
proof -
  show a: "vr = [] \<or> 1 - th \<noteq> 0"
    using assms by (cases vr) (auto split: if_splits)
  show "c = merge_with (\<lambda>old s. old + (s - th) / (1 - th) * 0.6) 0 vr d"
  proof (cases "vr = []")
    case True
    with assms show ?thesis by simp
  next
    case False
    with a have "1 - th \<noteq> 0" by simp
    from add_vector_merge [OF this, of vr d] assms show ?thesis by simp
  qed
qed

lemma combined_scores_Inr:
  assumes "combined_scores extract query notes model note_embeddings th = Inr combined"
  obtains vr where "vector_search query model note_embeddings 20 th = Inr vr"
    and "vr = [] \<or> 1 - th \<noteq> 0"
    and "combined = merge_with (\<lambda>old s. old + (s - th) / (1 - th) * 0.6) 0 vr
           (merge_with (\<lambda>old s. old + s * 0.4) 0 (fuzzy_search extract query notes 20) [])"
proof -
  from assms obtain vr where vr: "vector_search query model note_embeddings 20 th = Inr vr"
    and c: "add_vector th vr (add_fuzzy (fuzzy_search extract query notes 20) []) = Inr combined"
    by (auto simp: combined_scores_def Let_def split: sum.splits)
  from add_vector_Inr [OF c] vr that show ?thesis
    by (simp add: add_fuzzy_merge)
qed

lemma hybrid_search_Inr:
  assumes "hybrid_search extract query notes model note_embeddings limit th = Inr res"
  obtains combined where
    "combined_scores extract query notes model note_embeddings th = Inr combined"
    and "res = py_slice_to limit (sorted_desc combined)"
  using assms by (auto simp: hybrid_search_def split: sum.splits)

lemma distinct_combined:
  assumes "combined_scores extract query notes model note_embeddings th = Inr combined"
  shows "distinct (map fst combined)"
proof -
  from assms obtain vr where
    "combined = merge_with (\<lambda>old s. old + (s - th) / (1 - th) * 0.6) 0 vr
           (merge_with (\<lambda>old s. old + s * 0.4) 0 (fuzzy_search extract query notes 20) [])"
    by (rule combined_scores_Inr)
  then show ?thesis
    by (simp add: distinct_merge_with)
qed

text \<open>
  Claim C1. Additivity of fusion: a term that is in the lexical top 20 with score
  \<open>lexical\<close> and in the semantic top 20 with similarity \<open>similarity\<close> has the fused score
  \<open>lexical * 0.4 + (similarity - vector_threshold) / (1 - vector_threshold) * 0.6\<close> in the
  combined mapping, and in the returned list whenever it is returned. Scores are real
  numbers here, so the equality is exact and the tolerance of 1e-6 holds a fortiori.
\<close>

theorem hybrid_search_additive:
  assumes keys: "distinct (map fst note_embeddings)"
    and vec: "vector_search query model note_embeddings 20 vector_threshold = Inr vector_results"
    and lex: "(t, lexical) \<in> set (fuzzy_search extract query notes 20)"
    and sem: "(t, similarity) \<in> set vector_results"
    and hyb: "hybrid_search extract query notes model note_embeddings limit vector_threshold
                = Inr res"
  shows "vector_threshold \<noteq> 1
       \<and> (\<exists>combined.
            combined_scores extract query notes model note_embeddings vector_threshold
              = Inr combined
          \<and> (t, lexical * 0.4
                  + (similarity - vector_threshold) / (1 - vector_threshold) * 0.6)
              \<in> set combined)
       \<and> (\<forall>s. (t, s) \<in> set res \<longrightarrow>
            s = lexical * 0.4 + (similarity - vector_threshold) / (1 - vector_threshold) * 0.6
          \<and> \<bar>s - (lexical * 0.4
                  + (similarity - vector_threshold) / (1 - vector_threshold) * 0.6)\<bar>
              \<le> 1 / 10 ^ 6)"
proof -
  let ?fr = "fuzzy_search extract query notes 20"
  let ?fused = "lexical * 0.4 + (similarity - vector_threshold) / (1 - vector_threshold) * 0.6"
  from hyb obtain combined where
    cs: "combined_scores extract query notes model note_embeddings vector_threshold = Inr combined"
    and res: "res = py_slice_to limit (sorted_desc combined)"
    by (rule hybrid_search_Inr)
  from cs obtain vr where vr: "vector_search query model note_embeddings 20 vector_threshold = Inr vr"
    and ok: "vr = [] \<or> 1 - vector_threshold \<noteq> 0"
    and comb: "combined = merge_with
        (\<lambda>old s. old + (s - vector_threshold) / (1 - vector_threshold) * 0.6) 0 vr
        (merge_with (\<lambda>old s. old + s * 0.4) 0 ?fr [])"
    by (rule combined_scores_Inr)
  from vr vec have vr_eq: "vr = vector_results" by simp
  with sem ok have th: "vector_threshold \<noteq> 1" by auto
  have f1: "filter (\<lambda>p. fst p = t) ?fr = [(t, lexical)]"
    using distinct_fuzzy_search lex by (rule filter_key_distinct)
  have f2: "filter (\<lambda>p. fst p = t) vr = [(t, similarity)]"
    using distinct_vector_search [OF vr keys] sem [folded vr_eq] by (rule filter_key_distinct)
  have val: "dict_get combined t 0 = ?fused"
    unfolding comb by (simp add: dict_get_merge_with_add f1 f2)
  have "t \<in> set (map fst combined)"
    unfolding comb using sem [folded vr_eq] by (simp add: keys_merge_with_set del: set_map) force
  then have "(t, dict_get combined t 0) \<in> set combined"
    by (rule dict_get_in_set)
  then have mem: "(t, ?fused) \<in> set combined"
    by (simp only: val)
  have "s = ?fused" if "(t, s) \<in> set res" for s
  proof -
    from that have "(t, s) \<in> set combined"
      unfolding res using set_py_slice_to_subset [of limit "sorted_desc combined"] by auto
    with distinct_combined [OF cs] have "dict_get combined t 0 = s"
      by (rule dict_get_member)
    with val show ?thesis by simp
  qed
  with th cs mem show ?thesis by auto
qed

theorem hybrid_search_additive_witness:
  "distinct (map fst [(''berry'', [4/5, 3/5]), (''tea'', [0, 1 :: real])])
   \<and> vector_search ''berry'' (const_encoder [1, 0]) [(''berry'', [4/5, 3/5]), (''tea'', [0, 1])]
        20 (3/4) = Inr [(''berry'', 4/5)]
   \<and> fuzzy_search extract_ratio ''berry'' [''berry'', ''tea''] 20 = [(''berry'', 1)]
   \<and> hybrid_search extract_ratio ''berry'' [''berry'', ''tea''] (const_encoder [1, 0])
        [(''berry'', [4/5, 3/5]), (''tea'', [0, 1])] 10 (3/4) = Inr [(''berry'', 13/25)]
   \<and> (13/25 :: real) = 1 * 0.4 + (4/5 - 3/4) / (1 - 3/4) * 0.6"
proof -
  let ?embs = "[(''berry'', [4/5, 3/5]), (''tea'', [0, 1 :: real])]"
  have keys: "distinct (map fst ?embs)" by simp
  have vec: "vector_search ''berry'' (const_encoder [1, 0]) ?embs 20 (3/4) = Inr [(''berry'', 4/5)]"
    by code_simp
  have lex: "fuzzy_search extract_ratio ''berry'' [''berry'', ''tea''] 20 = [(''berry'', 1)]"
    by code_simp
  have hyb: "hybrid_search extract_ratio ''berry'' [''berry'', ''tea''] (const_encoder [1, 0])
        ?embs 10 (3/4) = Inr [(''berry'', 13/25)]"
    by code_simp
  have "(13/25 :: real) = 1 * 0.4 + (4/5 - 3/4) / (1 - 3/4) * 0.6"
    using hybrid_search_additive [where t = "''berry''" and lexical = 1 and similarity = "4/5",
        OF keys vec _ _ hyb]
    by (simp add: lex)
  with keys vec lex hyb show ?thesis by blast
qed

text \<open>
  Claim C2, as amended. The list returned by \<open>hybrid_search\<close> is ordered descending by
  score, and entries of equal score appear in the order in which their terms were first
  inserted into the combined mapping: the lexical results in their ranked order, then the
  terms only the semantic matcher found, in their ranked order.
\<close>

theorem hybrid_search_order:
  assumes "hybrid_search extract query notes model note_embeddings limit vector_threshold
             = Inr res"
  shows "descending res
       \<and> (\<exists>combined vector_results.
            combined_scores extract query notes model note_embeddings vector_threshold
              = Inr combined
          \<and> vector_search query model note_embeddings 20 vector_threshold = Inr vector_results
          \<and> ties_in_order_of (map fst combined) res
          \<and> (distinct (map fst note_embeddings) \<longrightarrow>
               map fst combined
                 = map fst (fuzzy_search extract query notes 20)
                   @ filter (\<lambda>k. k \<notin> set (map fst (fuzzy_search extract query notes 20)))
                       (map fst vector_results)))"
proof -
  let ?fr = "fuzzy_search extract query notes 20"
  from assms obtain combined where
    cs: "combined_scores extract query notes model note_embeddings vector_threshold = Inr combined"
    and res: "res = py_slice_to limit (sorted_desc combined)"
    by (rule hybrid_search_Inr)
  from cs obtain vr where vr: "vector_search query model note_embeddings 20 vector_threshold = Inr vr"
    and comb: "combined = merge_with
        (\<lambda>old s. old + (s - vector_threshold) / (1 - vector_threshold) * 0.6) 0 vr
        (merge_with (\<lambda>old s. old + s * 0.4) 0 ?fr [])"
    by (rule combined_scores_Inr)
  have d: "descending res"
    unfolding res by (intro descending_py_slice_to descending_sorted_desc)
  have t: "ties_in_order_of (map fst combined) res"
    unfolding res by (rule ties_sorted_slice)
  have k: "map fst combined = map fst ?fr @ filter (\<lambda>k. k \<notin> set (map fst ?fr)) (map fst vr)"
    if "distinct (map fst note_embeddings)"
  proof -
    let ?lexical = "merge_with (\<lambda>old s. old + s * 0.4) 0 ?fr []"
    have a: "map fst ?lexical = map fst ?fr"
      using keys_merge_with [OF distinct_fuzzy_search, of "\<lambda>old s. old + s * 0.4" 0 "extract"
          query "notes" 20 "[]"]
      by simp
    have "map fst combined
        = map fst ?lexical @ filter (\<lambda>k. k \<notin> set (map fst ?lexical)) (map fst vr)"
      unfolding comb by (rule keys_merge_with [OF distinct_vector_search [OF vr that]])
    then show ?thesis
      unfolding a .
  qed
  from d cs vr t k show ?thesis by blast
qed

theorem hybrid_search_order_witness:
  "hybrid_search extract_ratio ''bbb aaa'' [''aaa'', ''bbb'', ''ccc''] (const_encoder [1, 0])
      [(''aaa'', [0, 1]), (''bbb'', [0, 1]), (''ccc'', [5/6, 0])] 10 (1/2)
     = Inr [(''bbb'', 2/5), (''aaa'', 2/5), (''ccc'', 2/5)]
   \<and> descending [(''bbb'', 2/5), (''aaa'', 2/5), (''ccc'', 2/5 :: real)]
   \<and> fuzzy_search extract_ratio ''bbb aaa'' [''aaa'', ''bbb'', ''ccc''] 20
       = [(''bbb'', 1), (''aaa'', 1)]
   \<and> vector_search ''bbb aaa'' (const_encoder [1, 0])
        [(''aaa'', [0, 1]), (''bbb'', [0, 1]), (''ccc'', [5/6, 0])] 20 (1/2)
       = Inr [(''ccc'', 5/6)]
   \<and> ties_in_order_of [''bbb'', ''aaa'', ''ccc'']
        [(''bbb'', 2/5), (''aaa'', 2/5), (''ccc'', 2/5 :: real)]"
proof -
  let ?notes = "[''aaa'', ''bbb'', ''ccc'']"
  let ?embs = "[(''aaa'', [0, 1]), (''bbb'', [0, 1]), (''ccc'', [5/6, 0 :: real])]"
  let ?res = "[(''bbb'', 2/5), (''aaa'', 2/5), (''ccc'', 2/5 :: real)]"
  have hyb: "hybrid_search extract_ratio ''bbb aaa'' ?notes (const_encoder [1, 0]) ?embs 10 (1/2)
      = Inr ?res"
    by code_simp
  have lex: "fuzzy_search extract_ratio ''bbb aaa'' ?notes 20 = [(''bbb'', 1), (''aaa'', 1)]"
    by code_simp
  have vec: "vector_search ''bbb aaa'' (const_encoder [1, 0]) ?embs 20 (1/2) = Inr [(''ccc'', 5/6)]"
    by code_simp
  have keys: "distinct (map fst ?embs)" by simp
  note order = hybrid_search_order [OF hyb]
  from order have d: "descending ?res"
    by (rule conjunct1)
  from order have "\<exists>combined vector_results.
        combined_scores extract_ratio ''bbb aaa'' ?notes (const_encoder [1, 0]) ?embs (1/2)
          = Inr combined
      \<and> vector_search ''bbb aaa'' (const_encoder [1, 0]) ?embs 20 (1/2) = Inr vector_results
      \<and> ties_in_order_of (map fst combined) ?res
      \<and> (distinct (map fst ?embs) \<longrightarrow>
           map fst combined = map fst (fuzzy_search extract_ratio ''bbb aaa'' ?notes 20)
             @ filter (\<lambda>k. k \<notin> set (map fst (fuzzy_search extract_ratio ''bbb aaa'' ?notes 20)))
                 (map fst vector_results))"
    by (rule conjunct2)
  then obtain combined :: "(string, score) dict" and vector_results where
    v: "vector_search ''bbb aaa'' (const_encoder [1, 0]) ?embs 20 (1/2) = Inr vector_results"
    and t: "ties_in_order_of (map fst combined) ?res"
    and k: "distinct (map fst ?embs) \<longrightarrow>
       map fst combined = map fst (fuzzy_search extract_ratio ''bbb aaa'' ?notes 20)
         @ filter (\<lambda>k. k \<notin> set (map fst (fuzzy_search extract_ratio ''bbb aaa'' ?notes 20)))
             (map fst vector_results)"
    by blast
  from v vec have "vector_results = [(''ccc'', 5/6)]" by simp
  with k keys have "map fst combined = [''bbb'', ''aaa'', ''ccc'']"
    by (simp add: lex)
  with t have "ties_in_order_of [''bbb'', ''aaa'', ''ccc''] ?res" by simp
  with hyb d lex vec show ?thesis by blast
qed

text \<open>
  Claim C2, as stated, fails: for the vocabulary ["aaa", "bbb"] and the query "bbb aaa" both
  terms get the fused score 0.4, and "bbb" is returned before "aaa", against the order of
  the vocabulary.
\<close>

theorem hybrid_search_vocabulary_order_counterexample:
  "hybrid_search extract_ratio ''bbb aaa'' [''aaa'', ''bbb''] (const_encoder [1, 0])
      [(''aaa'', [0, 1]), (''bbb'', [0, 1])] 10 (3/4)
     = Inr [(''bbb'', 2/5), (''aaa'', 2/5)]
   \<and> \<not> ties_in_order_of [''aaa'', ''bbb''] [(''bbb'', 2/5), (''aaa'', 2/5)]"
proof -
  have hyb: "hybrid_search extract_ratio ''bbb aaa'' [''aaa'', ''bbb''] (const_encoder [1, 0])
      [(''aaa'', [0, 1]), (''bbb'', [0, 1])] 10 (3/4)
     = Inr [(''bbb'', 2/5), (''aaa'', 2/5)]"
    by code_simp
  have "\<not> subseq (map fst (filter (\<lambda>p. snd p = 2/5) [(''bbb'', 2/5 :: real), (''aaa'', 2/5)]))
           [''aaa'', ''bbb'']"
    by simp
  then have "\<not> ties_in_order_of [''aaa'', ''bbb''] [(''bbb'', 2/5), (''aaa'', 2/5)]"
    unfolding ties_in_order_of_def by blast
  with hyb show ?thesis by blast
qed

lemma fuzzy_search_nonneg:
  assumes "(k, s) \<in> set (fuzzy_search extract query notes limit)"
  shows "0 \<le> s"
proof -
  from assms set_fuzzy_search_subset
  have "(k, s) \<in> set (fuzzy_candidates extract query notes)" by blast
  then show ?thesis by (rule fuzzy_candidates_score(2))
qed

text \<open>
  Claim C10. Zero-score inclusion at the threshold boundary: a term that only the semantic
  matcher finds, with a similarity equal to the threshold, enters the combined mapping with
  the fused score 0 and is part of the returned list when the limit does not truncate it;
  for a threshold below 1 no combined score is negative, so the term ranks at the bottom.
  The witness below is an input where this happens.
\<close>

theorem hybrid_search_zero_score_inclusion:
  assumes keys: "distinct (map fst note_embeddings)"
    and vec: "vector_search query model note_embeddings 20 vector_threshold = Inr vector_results"
    and sem: "(t, vector_threshold) \<in> set vector_results"
    and lex: "t \<notin> fst ` set (fuzzy_search extract query notes 20)"
    and th: "vector_threshold \<noteq> 1"
  shows "\<exists>combined.
           combined_scores extract query notes model note_embeddings vector_threshold
             = Inr combined
         \<and> (t, 0) \<in> set combined
         \<and> (vector_threshold < 1 \<longrightarrow> (\<forall>(k, s) \<in> set combined. 0 \<le> s))
         \<and> (\<forall>limit. int (length combined) \<le> limit \<longrightarrow>
              (\<exists>res. hybrid_search extract query notes model note_embeddings limit
                       vector_threshold = Inr res
                   \<and> (t, 0) \<in> set res))"
proof -
  let ?fr = "fuzzy_search extract query notes 20"
  let ?g = "\<lambda>s. (s - vector_threshold) / (1 - vector_threshold) * 0.6"
  let ?lexical = "merge_with (\<lambda>old s. old + s * 0.4) 0 ?fr []"
  define combined where "combined = merge_with (\<lambda>old s. old + ?g s) 0 vector_results ?lexical"
  from th have nz: "1 - vector_threshold \<noteq> 0" by simp
  have cs: "combined_scores extract query notes model note_embeddings vector_threshold
      = Inr combined"
    using add_vector_merge [OF nz, of vector_results "add_fuzzy ?fr []"]
    by (simp add: combined_scores_def vec add_fuzzy_merge combined_def)
  have dist: "distinct (map fst combined)"
    using cs by (rule distinct_combined)
  have get: "dict_get combined k 0
      = sum_list (map (\<lambda>p. snd p * 0.4) (filter (\<lambda>p. fst p = k) ?fr))
        + sum_list (map (\<lambda>p. ?g (snd p)) (filter (\<lambda>p. fst p = k) vector_results))" for k
    unfolding combined_def
    by (simp only: dict_get_merge_with_add [where g = ?g]
        dict_get_merge_with_add [where g = "\<lambda>s. s * 0.4"] dict_get.simps add_0)
  have "filter (\<lambda>p. fst p = t) ?fr = []"
    using lex by (auto simp: filter_empty_conv)
  moreover have "filter (\<lambda>p. fst p = t) vector_results = [(t, vector_threshold)]"
    using distinct_vector_search [OF vec keys] sem by (rule filter_key_distinct)
  ultimately have val: "dict_get combined t 0 = 0"
    unfolding get by simp
  have "t \<in> set (map fst combined)"
    unfolding combined_def using sem by (simp add: keys_merge_with_set del: set_map) force
  then have "(t, dict_get combined t 0) \<in> set combined"
    by (rule dict_get_in_set)
  then have mem: "(t, 0) \<in> set combined"
    by (simp only: val)
  have nonneg: "0 \<le> s" if lt: "vector_threshold < 1" and ks: "(k, s) \<in> set combined" for k s
  proof -
    have "0 \<le> sum_list (map (\<lambda>p. snd p * 0.4) (filter (\<lambda>p. fst p = k) ?fr))"
      by (rule sum_list_nonneg) (auto dest: fuzzy_search_nonneg)
    moreover have "0 \<le> sum_list (map (\<lambda>p. ?g (snd p)) (filter (\<lambda>p. fst p = k) vector_results))"
    proof (rule sum_list_nonneg)
      fix x assume "x \<in> set (map (\<lambda>p. ?g (snd p)) (filter (\<lambda>p. fst p = k) vector_results))"
      then obtain v where "(k, v) \<in> set vector_results" and x: "x = ?g v"
        by auto
      with vector_search_above_threshold [OF vec] have "vector_threshold \<le> v"
        by blast
      with lt show "0 \<le> x"
        unfolding x by simp
    qed
    ultimately have "0 \<le> dict_get combined k 0"
      unfolding get by simp
    moreover have "dict_get combined k 0 = s"
      using dist ks by (rule dict_get_member)
    ultimately show ?thesis by simp
  qed
  have out: "\<exists>res. hybrid_search extract query notes model note_embeddings limit vector_threshold
                 = Inr res \<and> (t, 0) \<in> set res"
    if "int (length combined) \<le> limit" for limit
  proof -
    from that have "py_slice_to limit (sorted_desc combined) = sorted_desc combined"
      by (intro py_slice_to_all) simp
    then have "hybrid_search extract query notes model note_embeddings limit vector_threshold
        = Inr (sorted_desc combined)"
      by (simp add: hybrid_search_def cs)
    with mem show ?thesis by simp
  qed
  from cs mem nonneg out show ?thesis
    by blast
qed

theorem hybrid_search_zero_score_inclusion_witness:
  "distinct (map fst [(''zzz'', [0, 1]), (''ab'', [3/5, 4/5 :: real])])
   \<and> vector_search ''zzz'' (const_encoder [1, 0]) [(''zzz'', [0, 1]), (''ab'', [3/5, 4/5])]
        20 (3/5) = Inr [(''ab'', 3/5)]
   \<and> fuzzy_search extract_ratio ''zzz'' [''zzz'', ''ab''] 20 = [(''zzz'', 1)]
   \<and> combined_scores extract_ratio ''zzz'' [''zzz'', ''ab''] (const_encoder [1, 0])
        [(''zzz'', [0, 1]), (''ab'', [3/5, 4/5])] (3/5) = Inr [(''zzz'', 2/5), (''ab'', 0)]
   \<and> hybrid_search extract_ratio ''zzz'' [''zzz'', ''ab''] (const_encoder [1, 0])
        [(''zzz'', [0, 1]), (''ab'', [3/5, 4/5])] 10 (3/5) = Inr [(''zzz'', 2/5), (''ab'', 0)]
   \<and> (\<exists>res. hybrid_search extract_ratio ''zzz'' [''zzz'', ''ab''] (const_encoder [1, 0])
        [(''zzz'', [0, 1]), (''ab'', [3/5, 4/5])] 10 (3/5) = Inr res \<and> (''ab'', 0) \<in> set res)"
proof -
  let ?notes = "[''zzz'', ''ab'']"
  let ?embs = "[(''zzz'', [0, 1]), (''ab'', [3/5, 4/5 :: real])]"
  have keys: "distinct (map fst ?embs)" by simp
  have vec: "vector_search ''zzz'' (const_encoder [1, 0]) ?embs 20 (3/5) = Inr [(''ab'', 3/5)]"
    by code_simp
  have lex: "fuzzy_search extract_ratio ''zzz'' ?notes 20 = [(''zzz'', 1)]"
    by code_simp
  have cs: "combined_scores extract_ratio ''zzz'' ?notes (const_encoder [1, 0]) ?embs (3/5)
      = Inr [(''zzz'', 2/5), (''ab'', 0)]"
    by code_simp
  have hyb: "hybrid_search extract_ratio ''zzz'' ?notes (const_encoder [1, 0]) ?embs 10 (3/5)
      = Inr [(''zzz'', 2/5), (''ab'', 0)]"
    by code_simp
  have sem: "(''ab'', 3/5) \<in> set [(''ab'', 3/5 :: real)]" by simp
  have notlex: "''ab'' \<notin> fst ` set (fuzzy_search extract_ratio ''zzz'' ?notes 20)"
    by (simp add: lex)
  have th: "(3/5 :: real) \<noteq> 1" by simp
  from hybrid_search_zero_score_inclusion [OF keys vec sem notlex th]
  have "\<exists>res. hybrid_search extract_ratio ''zzz'' ?notes (const_encoder [1, 0]) ?embs 10 (3/5)
          = Inr res \<and> (''ab'', 0) \<in> set res"
    by (auto simp: cs)
  with keys vec lex cs hyb show ?thesis by blast
qed

section \<open>Totality and degenerate inputs\<close>

lemma similarities_loop_total:
  "\<forall>(n, e) \<in> set embs. length e = length q \<Longrightarrow> \<exists>sims. similarities_loop q th embs acc = Inr sims"
proof (induction embs arbitrary: acc)
  case Nil
  then show ?case by simp
next
  case (Cons p embs)
  obtain n e where p: "p = (n, e)" by (cases p)
  from Cons.prems p have len: "length q = length e" and rest: "\<forall>(n, e) \<in> set embs. length e = length q"
    by auto
  from Cons.IH [OF rest] show ?case
    by (simp add: p dot_def len)
qed

lemma vector_search_total:
  assumes "\<forall>(n, e) \<in> set note_embeddings. length e = length (model (''query: '' @ query))"
  shows "\<exists>res. vector_search query model note_embeddings limit threshold = Inr res"
proof -
  from similarities_loop_total [OF assms] obtain sims where
    "similarities_loop (model (''query: '' @ query)) threshold note_embeddings [] = Inr sims"
    by blast
  then show ?thesis
    by (simp add: vector_search_def vector_candidates_def)
qed

lemma hybrid_search_total:
  assumes "\<forall>(n, e) \<in> set note_embeddings. length e = length (model (''query: '' @ query))"
    and "threshold \<noteq> 1"
  shows "\<exists>res. hybrid_search extract query notes model note_embeddings limit threshold = Inr res"
proof -
  from vector_search_total [where model = model and query = query, OF assms(1)] obtain vr where
    "vector_search query model note_embeddings 20 threshold = Inr vr"
    by blast
  moreover from assms(2) have "1 - threshold \<noteq> 0" by simp
  ultimately show ?thesis
    by (simp add: hybrid_search_def combined_scores_def add_vector_merge)
qed

lemma fuzzy_search_empty_vocabulary:
  assumes "extract_sound extract"
  shows "fuzzy_search extract query [] limit = []"
proof -
  have "length (fuzzy_candidates extract query []) \<le> length ([] :: string list)"
    using assms by (rule length_fuzzy_candidates)
  then show ?thesis
    by (simp add: fuzzy_search_def py_slice_to_def sorted_desc_def)
qed

lemma fuzzy_search_empty_query:
  "fuzzy_search extract [] notes limit
     = py_slice_to limit (sorted_desc (add_matches (extract [] notes 5 50) []))"
  by (simp add: fuzzy_search_def fuzzy_candidates_def lower_def split_def)

text \<open>
  Claim C6, as amended. \<open>fuzzy_search\<close> has no failing path. \<open>vector_search\<close> returns a
  result whenever every stored embedding has the dimension of the query embedding, and
  \<open>hybrid_search\<close> whenever, in addition, the threshold is not 1. For an empty embedding
  mapping \<open>vector_search\<close> returns the empty list; for an empty vocabulary \<open>fuzzy_search\<close>
  returns the empty list, and \<open>hybrid_search\<close> does when both are empty (the extractor
  returning only choices). For an empty query \<open>fuzzy_search\<close> returns what the whole-query
  pass finds; nothing is promised to be empty there.
\<close>

theorem matchers_total:
  assumes dims: "\<forall>(n, e) \<in> set note_embeddings. length e = length (model (''query: '' @ query))"
  shows "(\<exists>res. vector_search query model note_embeddings limit threshold = Inr res)
       \<and> (threshold \<noteq> 1 \<longrightarrow>
            (\<exists>res. hybrid_search extract query notes model note_embeddings limit threshold
                     = Inr res))
       \<and> vector_search query model [] limit threshold = Inr []
       \<and> (extract_sound extract \<longrightarrow> fuzzy_search extract query [] limit = [])
       \<and> (extract_sound extract \<longrightarrow>
            hybrid_search extract query [] model [] limit threshold = Inr [])
       \<and> fuzzy_search extract [] notes limit
            = py_slice_to limit (sorted_desc (add_matches (extract [] notes 5 50) []))"
proof -
  have a: "\<exists>res. vector_search query model note_embeddings limit threshold = Inr res"
    using vector_search_total [where model = model and query = query, OF dims] .
  have b: "\<exists>res. hybrid_search extract query notes model note_embeddings limit threshold = Inr res"
    if "threshold \<noteq> 1"
    using hybrid_search_total [where model = model and query = query, OF dims that] .
  have c: "vector_search query model [] limit threshold = Inr []"
    by (simp add: vector_search_def vector_candidates_def py_slice_to_def sorted_desc_def)
  have d: "fuzzy_search extract query [] limit = []" if "extract_sound extract"
    using that by (rule fuzzy_search_empty_vocabulary)
  have e: "hybrid_search extract query [] model [] limit threshold = Inr []"
    if "extract_sound extract"
    using fuzzy_search_empty_vocabulary [OF that, of query 20]
    by (simp add: hybrid_search_def combined_scores_def vector_search_def vector_candidates_def
        add_fuzzy_def py_slice_to_def sorted_desc_def)
  from a b c d e fuzzy_search_empty_query show ?thesis
    by blast
qed

theorem matchers_total_witness:
  "map (\<lambda>p. length (snd p)) [(''berry'', [4/5, 3/5]), (''tea'', [0, 1 :: real])] = [2, 2]
   \<and> length (const_encoder [1, 0] (''query: '' @ ''berry'')) = 2
   \<and> vector_search ''berry'' (const_encoder [1, 0]) [(''berry'', [4/5, 3/5]), (''tea'', [0, 1])]
        10 (3/4) = Inr [(''berry'', 4/5)]
   \<and> (\<exists>res. hybrid_search extract_ratio ''berry'' [''berry'', ''tea''] (const_encoder [1, 0])
        [(''berry'', [4/5, 3/5]), (''tea'', [0, 1])] 10 (3/4) = Inr res)
   \<and> extract_sound extract_ratio
   \<and> fuzzy_search extract_ratio ''berry'' [] 10 = []
   \<and> hybrid_search extract_ratio ''berry'' [] (const_encoder [1, 0]) [] 10 (3/4) = Inr []"
proof -
  let ?embs = "[(''berry'', [4/5, 3/5]), (''tea'', [0, 1 :: real])]"
  have dims: "\<forall>(n, e) \<in> set ?embs. length e = length (const_encoder [1, 0] (''query: '' @ ''berry''))"
    by (simp add: const_encoder_def)
  have vec: "vector_search ''berry'' (const_encoder [1, 0]) ?embs 10 (3/4) = Inr [(''berry'', 4/5)]"
    by code_simp
  have th: "(3/4 :: real) \<noteq> 1" by simp
  note total = matchers_total [of ?embs "const_encoder [1, 0]" "''berry''" 10 "3/4"
      extract_ratio "[''berry'', ''tea'']", OF dims]
  from total th have hyb: "\<exists>res. hybrid_search extract_ratio ''berry'' [''berry'', ''tea'']
      (const_encoder [1, 0]) ?embs 10 (3/4) = Inr res"
    by blast
  from total extract_ratio_sound have f: "fuzzy_search extract_ratio ''berry'' [] 10 = []"
    by blast
  from total extract_ratio_sound
  have h: "hybrid_search extract_ratio ''berry'' [] (const_encoder [1, 0]) [] 10 (3/4) = Inr []"
    by blast
  have lens: "map (\<lambda>p. length (snd p)) ?embs = [2, 2]"
    and lenq: "length (const_encoder [1, 0] (''query: '' @ ''berry'')) = 2"
    by (simp_all add: const_encoder_def)
  from lens lenq vec hyb extract_ratio_sound f h show ?thesis
    by blast
qed

text \<open>
  Claim C6, as stated, fails for an empty query: the semantic matcher embeds the empty
  query like any other and returns every entry that passes the threshold, and the fused
  result is then not empty either.
\<close>

theorem empty_query_counterexample:
  "vector_search [] (const_encoder [1]) [(''a'', [1])] 10 (3/4) = Inr [(''a'', 1)]
   \<and> vector_search [] (const_encoder [1]) [(''a'', [1])] 10 (3/4) \<noteq> Inr []
   \<and> hybrid_search extract_ratio [] [''a''] (const_encoder [1]) [(''a'', [1])] 10 (3/4)
       = Inr [(''a'', 3/5)]
   \<and> hybrid_search extract_ratio [] [''a''] (const_encoder [1]) [(''a'', [1])] 10 (3/4)
       \<noteq> Inr []"
proof -
  have v: "vector_search [] (const_encoder [1]) [(''a'', [1])] 10 (3/4) = Inr [(''a'', 1)]"
    by code_simp
  have h: "hybrid_search extract_ratio [] [''a''] (const_encoder [1]) [(''a'', [1])] 10 (3/4)
       = Inr [(''a'', 3/5)]"
    by code_simp
  show ?thesis
    unfolding v h by simp
qed

section \<open>Determinism\<close>

lemma stable_descending_sorted_desc: "stable_descending xs (sorted_desc xs)"
  unfolding stable_descending_def
  by (simp add: descending_sorted_desc sorted_desc_stable) (simp add: sorted_desc_def)

lemma stable_descending_unique:
  assumes "stable_descending xs ys"
  shows "ys = sorted_desc xs"
proof -
  from assms have perm: "mset ys = mset xs" and desc: "descending ys"
    and ties: "\<And>v. filter (\<lambda>p. snd p = v) ys = filter (\<lambda>p. snd p = v) xs"
    by (simp_all add: stable_descending_def)
  have "sort_key (\<lambda>p. - snd p) xs = ys"
  proof (rule properties_for_sort_key)
    show "mset ys = mset xs" by (rule perm)
  next
    fix k assume "k \<in> set ys"
    have eq: "(\<lambda>x. - snd k = - snd x) = (\<lambda>p. snd p = snd k)"
      by auto
    show "filter (\<lambda>x. - snd k = - snd x) ys = filter (\<lambda>x. - snd k = - snd x) xs"
      unfolding eq by (rule ties)
  next
    show "sorted (map (\<lambda>p. - snd p) ys)"
      using desc by (simp add: descending_def sorted_map)
  qed
  then show ?thesis
    by (simp add: sorted_desc_def)
qed

lemma keys_merge_with_discovery:
  "map fst (merge_with h z evs d)
     = map fst d @ filter (\<lambda>k. k \<notin> set (map fst d)) (discovery_order (map fst evs))"
proof (induction evs arbitrary: d)
  case Nil
  then show ?case by simp
next
  case (Cons p evs)
  obtain k w where p: "p = (k, w)" by (cases p)
  let ?d' = "dict_set d k (h (dict_get d k z) w)"
  let ?rest = "discovery_order (map fst evs)"
  have IH: "map fst (merge_with h z (p # evs) d)
      = map fst ?d' @ filter (\<lambda>x. x \<notin> set (map fst ?d')) ?rest"
    using Cons.IH [of ?d'] p by simp
  show ?case
  proof (cases "k \<in> set (map fst d)")
    case True
    then have keys: "map fst ?d' = map fst d"
      by (simp add: keys_dict_set)
    have "filter (\<lambda>x. x \<notin> set (map fst d)) (filter (\<lambda>y. y \<noteq> k) ?rest)
        = filter (\<lambda>x. x \<notin> set (map fst d)) ?rest"
      using True by (auto intro: filter_cong)
    with True show ?thesis
      unfolding IH keys by (simp add: p)
  next
    case False
    then have keys: "map fst ?d' = map fst d @ [k]"
      by (simp add: keys_dict_set)
    have "filter (\<lambda>x. x \<notin> set (map fst d @ [k])) ?rest
        = filter (\<lambda>x. x \<notin> set (map fst d)) (filter (\<lambda>y. y \<noteq> k) ?rest)"
      by (auto intro: filter_cong)
    with False show ?thesis
      unfolding IH keys by (simp add: p)
  qed
qed

lemma keys_fuzzy_candidates_discovery:
  "map fst (fuzzy_candidates extract query notes)
     = discovery_order (map fst (pass_scores extract query notes))"
  by (simp add: fuzzy_candidates_merge keys_merge_with_discovery)

lemma similarities_loop_subseq:
  "similarities_loop q th embs acc = Inr sims \<Longrightarrow>
   \<exists>ys. sims = acc @ ys \<and> subseq (map fst ys) (map fst embs)"
proof (induction embs arbitrary: acc)
  case Nil
  then show ?case by simp
next
  case (Cons p embs)
  obtain n e where p: "p = (n, e)" by (cases p)
  from Cons.prems p obtain s where
    rest: "similarities_loop q th embs (if th \<le> s then acc @ [(n, s)] else acc) = Inr sims"
    by (auto split: sum.splits)
  from Cons.IH [OF rest] obtain ys where
    ys: "sims = (if th \<le> s then acc @ [(n, s)] else acc) @ ys"
    and sub: "subseq (map fst ys) (map fst embs)"
    by blast
  show ?case
  proof (cases "th \<le> s")
    case True
    with ys sub p show ?thesis
      by (intro exI [of _ "(n, s) # ys"]) simp
  next
    case False
    with ys sub p show ?thesis
      by (intro exI [of _ ys]) (auto intro: list_emb_Cons)
  qed
qed

lemma ties_in_order_of_subseq:
  assumes "ties_in_order_of order res" and "subseq order order'"
  shows "ties_in_order_of order' res"
  using assms unfolding ties_in_order_of_def
  by (meson subseq_order.order_trans)

lemma fuzzy_candidates_cong:
  assumes tok: "\<forall>w \<in> set (split (lower query)). 3 \<le> length w \<longrightarrow>
                  extract1 w notes 5 60 = extract2 w notes 5 60"
    and full: "extract1 query notes 5 50 = extract2 query notes 5 50"
  shows "fuzzy_candidates extract1 query notes = fuzzy_candidates extract2 query notes"
proof -
  have "word_pass extract1 notes w = word_pass extract2 notes w"
    if "w \<in> set (split (lower query))" for w
    using tok that by (auto simp: word_pass_def fun_eq_iff)
  then have "fold (word_pass extract1 notes) (split (lower query)) []
           = fold (word_pass extract2 notes) (split (lower query)) []"
    by (intro fold_cong) simp_all
  then show ?thesis
    by (simp add: fuzzy_candidates_def full)
qed

text \<open>
  Claim C9. Determinism. Each of two invocations is given its own collaborators and its
  own outcome of the sort, any list that Python's contract for \<open>sorted\<close> allows. When the
  collaborators answer alike on the calls the matcher makes (the extractor on every token
  of at least three characters and on the whole query, the embedding model on the
  prefixed query), the two invocations return the same list, and it is the value of the
  function: nothing is left to chance. The order of ties is fixed as well: the candidate
  mapping lists the terms in the order of their first discovery in the passes, entries of
  equal score keep that order in the lexical result, and they keep the order of the
  embedding mapping in the semantic result.
\<close>

theorem matchers_deterministic:
  assumes tok: "\<forall>w \<in> set (split (lower query)). 3 \<le> length w \<longrightarrow>
                  extract1 w notes 5 60 = extract2 w notes 5 60"
    and full: "extract1 query notes 5 50 = extract2 query notes 5 50"
    and enc: "model1 (''query: '' @ query) = model2 (''query: '' @ query)"
  shows "fuzzy_search extract1 query notes limit = fuzzy_search extract2 query notes limit
       \<and> vector_search query model1 note_embeddings limit threshold
           = vector_search query model2 note_embeddings limit threshold
       \<and> hybrid_search extract1 query notes model1 note_embeddings limit threshold
           = hybrid_search extract2 query notes model2 note_embeddings limit threshold
       \<and> (\<forall>ys1 ys2.
             stable_descending (fuzzy_candidates extract1 query notes) ys1
           \<and> stable_descending (fuzzy_candidates extract2 query notes) ys2 \<longrightarrow>
               py_slice_to limit ys1 = py_slice_to limit ys2
             \<and> py_slice_to limit ys1 = fuzzy_search extract1 query notes limit)
       \<and> (\<forall>sims1 sims2 ys1 ys2.
             vector_candidates query model1 note_embeddings threshold = Inr sims1
           \<and> vector_candidates query model2 note_embeddings threshold = Inr sims2
           \<and> stable_descending sims1 ys1 \<and> stable_descending sims2 ys2 \<longrightarrow>
               py_slice_to limit ys1 = py_slice_to limit ys2
             \<and> vector_search query model1 note_embeddings limit threshold
                 = Inr (py_slice_to limit ys1))
       \<and> (\<forall>combined1 combined2 ys1 ys2.
             combined_scores extract1 query notes model1 note_embeddings threshold
               = Inr combined1
           \<and> combined_scores extract2 query notes model2 note_embeddings threshold
               = Inr combined2
           \<and> stable_descending combined1 ys1 \<and> stable_descending combined2 ys2 \<longrightarrow>
               py_slice_to limit ys1 = py_slice_to limit ys2
             \<and> hybrid_search extract1 query notes model1 note_embeddings limit threshold
                 = Inr (py_slice_to limit ys1))
       \<and> map fst (fuzzy_candidates extract1 query notes)
           = discovery_order (map fst (pass_scores extract1 query notes))
       \<and> ties_in_order_of (discovery_order (map fst (pass_scores extract1 query notes)))
            (fuzzy_search extract1 query notes limit)
       \<and> (\<forall>res. vector_search query model1 note_embeddings limit threshold = Inr res \<longrightarrow>
             ties_in_order_of (map fst note_embeddings) res)"
proof -
  have c: "fuzzy_candidates extract1 query notes = fuzzy_candidates extract2 query notes"
    using tok full by (rule fuzzy_candidates_cong)
  have f: "fuzzy_search extract1 query notes k = fuzzy_search extract2 query notes k" for k
    by (simp add: fuzzy_search_def c)
  have vc: "vector_candidates query model1 note_embeddings threshold
          = vector_candidates query model2 note_embeddings threshold"
    using enc by (simp add: vector_candidates_def)
  have v: "vector_search query model1 note_embeddings k threshold
         = vector_search query model2 note_embeddings k threshold" for k
    by (simp add: vector_search_def vc)
  have cs: "combined_scores extract1 query notes model1 note_embeddings threshold
          = combined_scores extract2 query notes model2 note_embeddings threshold"
    by (simp add: combined_scores_def f v)
  have h: "hybrid_search extract1 query notes model1 note_embeddings limit threshold
         = hybrid_search extract2 query notes model2 note_embeddings limit threshold"
    by (simp add: hybrid_search_def cs)
  have runs_f: "py_slice_to limit ys1 = py_slice_to limit ys2
      \<and> py_slice_to limit ys1 = fuzzy_search extract1 query notes limit"
    if "stable_descending (fuzzy_candidates extract1 query notes) ys1
      \<and> stable_descending (fuzzy_candidates extract2 query notes) ys2" for ys1 ys2
  proof -
    from that have "ys1 = sorted_desc (fuzzy_candidates extract1 query notes)"
      and "ys2 = sorted_desc (fuzzy_candidates extract2 query notes)"
      by (simp_all add: stable_descending_unique)
    then show ?thesis
      by (simp add: fuzzy_search_def c)
  qed
  have runs_v: "py_slice_to limit ys1 = py_slice_to limit ys2
      \<and> vector_search query model1 note_embeddings limit threshold = Inr (py_slice_to limit ys1)"
    if "vector_candidates query model1 note_embeddings threshold = Inr sims1
      \<and> vector_candidates query model2 note_embeddings threshold = Inr sims2
      \<and> stable_descending sims1 ys1 \<and> stable_descending sims2 ys2" for sims1 sims2 ys1 ys2
  proof -
    from that vc have "sims1 = sims2" by auto
    moreover from that have "ys1 = sorted_desc sims1" and "ys2 = sorted_desc sims2"
      by (simp_all add: stable_descending_unique)
    ultimately show ?thesis
      using that by (simp add: vector_search_def)
  qed
  have runs_h: "py_slice_to limit ys1 = py_slice_to limit ys2
      \<and> hybrid_search extract1 query notes model1 note_embeddings limit threshold
          = Inr (py_slice_to limit ys1)"
    if "combined_scores extract1 query notes model1 note_embeddings threshold = Inr combined1
      \<and> combined_scores extract2 query notes model2 note_embeddings threshold = Inr combined2
      \<and> stable_descending combined1 ys1 \<and> stable_descending combined2 ys2"
    for combined1 combined2 ys1 ys2
  proof -
    from that cs have "combined1 = combined2" by auto
    moreover from that have "ys1 = sorted_desc combined1" and "ys2 = sorted_desc combined2"
      by (simp_all add: stable_descending_unique)
    ultimately show ?thesis
      using that by (simp add: hybrid_search_def)
  qed
  have keys: "map fst (fuzzy_candidates extract1 query notes)
      = discovery_order (map fst (pass_scores extract1 query notes))"
    by (rule keys_fuzzy_candidates_discovery)
  have ties_f: "ties_in_order_of (discovery_order (map fst (pass_scores extract1 query notes)))
      (fuzzy_search extract1 query notes limit)"
    unfolding keys [symmetric] fuzzy_search_def by (rule ties_sorted_slice)
  have ties_v: "ties_in_order_of (map fst note_embeddings) res"
    if "vector_search query model1 note_embeddings limit threshold = Inr res" for res
  proof -
    from that obtain sims where
      sims: "vector_candidates query model1 note_embeddings threshold = Inr sims"
      and res: "res = py_slice_to limit (sorted_desc sims)"
      by (rule vector_search_Inr)
    from similarities_loop_subseq [OF sims [unfolded vector_candidates_def]]
    have "subseq (map fst sims) (map fst note_embeddings)"
      by auto
    moreover have "ties_in_order_of (map fst sims) res"
      unfolding res by (rule ties_sorted_slice)
    ultimately show ?thesis
      by (rule ties_in_order_of_subseq [rotated])
  qed
  from f v h runs_f runs_v runs_h keys ties_f ties_v show ?thesis
    by blast
qed

theorem matchers_deterministic_witness:
  "split (lower ''Berry tea'') = [''berry'', ''tea'']
   \<and> extract_ratio ''berry'' [''berry'', ''tea''] 5 60
       = (extract_ratio(''other'' := extract_ratio ''berry'')) ''berry'' [''berry'', ''tea''] 5 60
   \<and> extract_ratio ''tea'' [''berry'', ''tea''] 5 60
       = (extract_ratio(''other'' := extract_ratio ''berry'')) ''tea'' [''berry'', ''tea''] 5 60
   \<and> extract_ratio ''Berry tea'' [''berry'', ''tea''] 5 50
       = (extract_ratio(''other'' := extract_ratio ''berry'')) ''Berry tea'' [''berry'', ''tea''] 5 50
   \<and> const_encoder [1, 0] (''query: '' @ ''Berry tea'')
       = ((const_encoder [0, 1])(''query: Berry tea'' := [1, 0])) (''query: '' @ ''Berry tea'')
   \<and> hybrid_search extract_ratio ''Berry tea'' [''berry'', ''tea''] (const_encoder [1, 0])
        [(''berry'', [4/5, 3/5]), (''tea'', [0, 1])] 10 (3/4)
       = Inr [(''berry'', 13/25), (''tea'', 2/5)]
   \<and> hybrid_search (extract_ratio(''other'' := extract_ratio ''berry'')) ''Berry tea''
        [''berry'', ''tea''] ((const_encoder [0, 1])(''query: Berry tea'' := [1, 0]))
        [(''berry'', [4/5, 3/5]), (''tea'', [0, 1])] 10 (3/4)
       = Inr [(''berry'', 13/25), (''tea'', 2/5)]
   \<and> pass_scores extract_ratio ''Berry tea'' [''berry'', ''tea'']
       = [(''berry'', 1), (''berry'', 1), (''tea'', 1), (''tea'', 1), (''berry'', 4/7),
          (''tea'', 1/2)]
   \<and> map fst (fuzzy_candidates extract_ratio ''Berry tea'' [''berry'', ''tea''])
       = [''berry'', ''tea'']
   \<and> fuzzy_search extract_ratio ''Berry tea'' [''berry'', ''tea''] 10
       = [(''berry'', 1), (''tea'', 1)]"
proof -
  let ?notes = "[''berry'', ''tea'']"
  let ?extract2 = "extract_ratio(''other'' := extract_ratio ''berry'')"
  let ?model2 = "(const_encoder [0, 1])(''query: Berry tea'' := [1, 0])"
  let ?embs = "[(''berry'', [4/5, 3/5]), (''tea'', [0, 1 :: real])]"
  have tokens: "split (lower ''Berry tea'') = [''berry'', ''tea'']"
    by code_simp
  have tok: "\<forall>w \<in> set (split (lower ''Berry tea'')). 3 \<le> length w \<longrightarrow>
       extract_ratio w ?notes 5 60 = ?extract2 w ?notes 5 60"
    unfolding tokens by simp
  have full: "extract_ratio ''Berry tea'' ?notes 5 50 = ?extract2 ''Berry tea'' ?notes 5 50"
    by simp
  have enc: "const_encoder [1, 0] (''query: '' @ ''Berry tea'') = ?model2 (''query: '' @ ''Berry tea'')"
    by (simp add: const_encoder_def)
  have run1: "hybrid_search extract_ratio ''Berry tea'' ?notes (const_encoder [1, 0]) ?embs 10 (3/4)
       = Inr [(''berry'', 13/25), (''tea'', 2/5)]"
    by code_simp
  have ps: "pass_scores extract_ratio ''Berry tea'' ?notes
       = [(''berry'', 1), (''berry'', 1), (''tea'', 1), (''tea'', 1), (''berry'', 4/7),
          (''tea'', 1/2)]"
    by code_simp
  have lex: "fuzzy_search extract_ratio ''Berry tea'' ?notes 10 = [(''berry'', 1), (''tea'', 1)]"
    by code_simp
  note det = matchers_deterministic [where ?extract1.0 = extract_ratio and ?extract2.0 = ?extract2
      and ?model1.0 = "const_encoder [1, 0]" and ?model2.0 = ?model2
      and query = "''Berry tea''" and ?notes = ?notes and limit = 10
      and note_embeddings = ?embs and threshold = "3/4", OF tok full enc]
  from det have run2: "hybrid_search ?extract2 ''Berry tea'' ?notes ?model2 ?embs 10 (3/4)
       = Inr [(''berry'', 13/25), (''tea'', 2/5)]"
    using run1 by simp
  from det have "map fst (fuzzy_candidates extract_ratio ''Berry tea'' ?notes)
       = discovery_order (map fst (pass_scores extract_ratio ''Berry tea'' ?notes))"
    by blast
  then have keys: "map fst (fuzzy_candidates extract_ratio ''Berry tea'' ?notes) = [''berry'', ''tea'']"
    by (simp add: ps)
  have e1: "extract_ratio ''berry'' ?notes 5 60 = ?extract2 ''berry'' ?notes 5 60"
    and e2: "extract_ratio ''tea'' ?notes 5 60 = ?extract2 ''tea'' ?notes 5 60"
    by simp_all
  from tokens e1 e2 full enc run1 run2 ps keys lex show ?thesis
    by blast
qed

text \<open>
  The stability of the sort is what fixes the order: without it a descending rearrangement
  of the candidates may differ from the result.
\<close>

lemma unstable_outcome_differs:
  "fuzzy_candidates extract_ratio ''bbb aaa'' [''aaa'', ''bbb''] = [(''bbb'', 1), (''aaa'', 1)]
   \<and> mset [(''aaa'', 1), (''bbb'', 1)]
       = mset (fuzzy_candidates extract_ratio ''bbb aaa'' [''aaa'', ''bbb''])
   \<and> descending [(''aaa'', 1), (''bbb'', 1 :: real)]
   \<and> \<not> stable_descending (fuzzy_candidates extract_ratio ''bbb aaa'' [''aaa'', ''bbb''])
         [(''aaa'', 1), (''bbb'', 1)]
   \<and> fuzzy_search extract_ratio ''bbb aaa'' [''aaa'', ''bbb''] 10 = [(''bbb'', 1), (''aaa'', 1)]"
proof -
  have c: "fuzzy_candidates extract_ratio ''bbb aaa'' [''aaa'', ''bbb'']
      = [(''bbb'', 1), (''aaa'', 1)]"
    by code_simp
  have r: "fuzzy_search extract_ratio ''bbb aaa'' [''aaa'', ''bbb''] 10
      = [(''bbb'', 1), (''aaa'', 1)]"
    by code_simp
  have m: "mset [(''aaa'', 1 :: real), (''bbb'', 1)] = mset [(''bbb'', 1), (''aaa'', 1)]"
    by (simp add: add_mset_commute)
  have d: "descending [(''aaa'', 1), (''bbb'', 1 :: real)]"
    by (simp add: descending_def)
  have "filter (\<lambda>p. snd p = 1) [(''aaa'', 1 :: real), (''bbb'', 1)]
      \<noteq> filter (\<lambda>p. snd p = 1) [(''bbb'', 1), (''aaa'', 1)]"
    by simp
  then have n: "\<not> stable_descending [(''bbb'', 1), (''aaa'', 1)] [(''aaa'', 1), (''bbb'', 1)]"
    unfolding stable_descending_def by blast
  from c r m d n show ?thesis
    by simp
qed

section \<open>The enrichment step\<close>

lemma py_strip_core:
  assumes "\<forall>c \<in> set ws1. is_space c" and "\<forall>c \<in> set ws2. is_space c"
    and "m \<noteq> []" and "\<not> is_space (hd m)" and "\<not> is_space (last m)"
  shows "py_strip (ws1 @ m @ ws2) = m"
proof -
  from assms(3,4) have "dropWhile is_space (m @ ws2) = m @ ws2"
    by (cases m) simp_all
  moreover have "dropWhile is_space (ws1 @ m @ ws2) = dropWhile is_space (m @ ws2)"
    using assms(1) by (intro dropWhile_append2) simp
  ultimately have left: "dropWhile is_space (ws1 @ m @ ws2) = m @ ws2"
    by simp
  from assms(3,5) have "dropWhile is_space (rev m) = rev m"
    by (cases m rule: rev_cases) simp_all
  moreover have "dropWhile is_space (rev ws2 @ rev m) = dropWhile is_space (rev m)"
    using assms(2) by (intro dropWhile_append2) simp
  ultimately have "dropWhile is_space (rev (m @ ws2)) = rev m"
    by simp
  with left show ?thesis
    by (simp add: py_strip_def)
qed

lemma split_fence_skip:
  assumes "x \<noteq> CHR 0x60"
  shows "split_fence cur (x # s) = split_fence (cur @ [x]) s"
proof (cases s)
  case Nil
  then show ?thesis by simp
next
  case (Cons b s')
  with assms show ?thesis by (cases s') simp_all
qed

lemma split_fence_fence: "split_fence cur (fence @ rest) = cur # split_fence [] rest"
  by (simp add: fence_def)

lemma split_fence_body:
  "CHR 0x60 \<notin> set body \<Longrightarrow>
   split_fence cur (body @ fence @ rest) = (cur @ body) # split_fence [] rest"
proof (induction body arbitrary: cur)
  case Nil
  then show ?case by (simp add: split_fence_fence)
next
  case (Cons x body)
  then have "x \<noteq> CHR 0x60" and "CHR 0x60 \<notin> set body" by auto
  with Cons.IH [of "cur @ [x]"] show ?case
    by (simp add: split_fence_skip)
qed

lemma split_fence_not_Nil: "split_fence cur s \<noteq> []"
  by (induction cur s rule: split_fence.induct) simp_all

text \<open>The subscripts of lines 173 and 176 raise only when there is no content block.\<close>

lemma response_text_block: "\<exists>text. response_text (block # blocks) = Inr text"
proof (cases "prefix fence (py_strip block)")
  case False
  then show ?thesis by (simp add: response_text_def)
next
  case True
  then obtain rest where rest: "py_strip block = fence @ rest"
    by (auto simp: prefix_def)
  obtain piece more where "split_fence [] rest = piece # more"
    using split_fence_not_Nil [of "[]" rest] by (cases "split_fence [] rest") auto
  then have "split_fence [] (py_strip block) = [] # piece # more"
    by (simp add: rest split_fence_fence)
  with True show ?thesis
    by (simp add: response_text_def)
qed

text \<open>
  A response that is JSON in a code fence, with or without the \<open>json\<close> tag and with
  whitespace around it: the text between the fences is handed to the decoder.
\<close>

lemma response_text_fenced:
  assumes body: "CHR 0x60 \<notin> set body"
    and ws: "\<forall>c \<in> set ws1. is_space c" "\<forall>c \<in> set ws2. is_space c"
    and tag: "tag = ''json'' \<or> (tag = [] \<and> \<not> prefix ''json'' body)"
  shows "response_text ((ws1 @ fence @ tag @ body @ fence @ ws2) # blocks) = Inr body"
proof -
  let ?m = "fence @ tag @ body @ fence"
  have "py_strip (ws1 @ ?m @ ws2) = ?m"
    using ws by (rule py_strip_core) (simp_all add: fence_def is_space_def)
  then have stripped: "py_strip (ws1 @ fence @ tag @ body @ fence @ ws2) = ?m"
    by simp
  have "CHR 0x60 \<notin> set (tag @ body)"
    using body tag by auto
  then have "split_fence [] ((tag @ body) @ fence @ []) = ([] @ tag @ body) # split_fence [] []"
    by (rule split_fence_body)
  then have pieces: "split_fence [] ?m = [[], tag @ body, []]"
    using split_fence_fence [of "[]" "tag @ body @ fence"] by simp
  have piece: "(if prefix ''json'' (tag @ body) then drop 4 (tag @ body) else tag @ body) = body"
    using tag by auto
  show ?thesis
    unfolding response_text_def list.case stripped Let_def pieces
    using piece by simp
qed

lemma get_llm_mappings_fenced:
  assumes "CHR 0x60 \<notin> set body"
    and "\<forall>c \<in> set ws1. is_space c" "\<forall>c \<in> set ws2. is_space c"
    and "tag = ''json'' \<or> (tag = [] \<and> \<not> prefix ''json'' body)"
    and "loads body = Inr v"
  shows "get_llm_mappings loads ((ws1 @ fence @ tag @ body @ fence @ ws2) # blocks) = Inr v"
  using response_text_fenced [OF assms(1-4), of blocks] assms(5)
  by (simp add: get_llm_mappings_def try_body_def)

text \<open>The two caught exceptions are answered with the empty mappings.\<close>

lemma get_llm_mappings_no_content: "get_llm_mappings loads [] = Inr empty_mappings"
  by (simp add: get_llm_mappings_def try_body_def response_text_def)

lemma get_llm_mappings_caught:
  assumes "response_text content = Inr text"
    and "loads text = Inl JSONDecodeError \<or> loads text = Inl IndexError"
  shows "get_llm_mappings loads content = Inr empty_mappings"
  using assms by (auto simp: get_llm_mappings_def try_body_def)

text \<open>Every other exception of the decoder leaves the function.\<close>

lemma get_llm_mappings_propagates:
  assumes "response_text content = Inr text" and "loads text = Inl e"
    and "e \<noteq> JSONDecodeError" and "e \<noteq> IndexError"
  shows "get_llm_mappings loads content = Inl e"
  using assms by (simp add: get_llm_mappings_def try_body_def)

lemma shape_ok_empty_mappings: "shape_ok empty_mappings"
  by (simp add: shape_ok_def empty_mappings_def)

lemma get_llm_mappings_Inr:
  assumes "get_llm_mappings loads content = Inr m"
  shows "m = empty_mappings \<or> (\<exists>text. response_text content = Inr text \<and> loads text = Inr m)"
  using assms
  by (auto simp: get_llm_mappings_def try_body_def split: sum.splits if_splits)

text \<open>
  Claim C7, as amended. \<open>get_llm_mappings\<close> returns the decoded response unchanged, or the
  empty mappings when nothing could be decoded; it enforces no bound itself. What it
  returns has the requested shape (at most 8 notes, all of the fixed vocabulary, and at
  most 3 processes) exactly when the decoded response, if there is one, has it.
\<close>

theorem get_llm_mappings_shape:
  "(\<forall>m. get_llm_mappings loads content = Inr m \<longrightarrow> shape_ok m)
     \<longleftrightarrow> (\<forall>text v. response_text content = Inr text \<and> loads text = Inr v \<longrightarrow> shape_ok v)"
proof
  assume ok: "\<forall>m. get_llm_mappings loads content = Inr m \<longrightarrow> shape_ok m"
  show "\<forall>text v. response_text content = Inr text \<and> loads text = Inr v \<longrightarrow> shape_ok v"
  proof (intro allI impI)
    fix tx v
    assume "response_text content = Inr tx \<and> loads tx = Inr v"
    then have "get_llm_mappings loads content = Inr v"
      by (simp add: get_llm_mappings_def try_body_def)
    with ok show "shape_ok v" by blast
  qed
next
  assume all: "\<forall>text v. response_text content = Inr text \<and> loads text = Inr v \<longrightarrow> shape_ok v"
  show "\<forall>m. get_llm_mappings loads content = Inr m \<longrightarrow> shape_ok m"
  proof (intro allI impI)
    fix m
    assume "get_llm_mappings loads content = Inr m"
    from get_llm_mappings_Inr [OF this] show "shape_ok m"
    proof
      assume "m = empty_mappings"
      then show ?thesis by (simp add: shape_ok_empty_mappings)
    next
      assume "\<exists>text. response_text content = Inr text \<and> loads text = Inr m"
      with all show ?thesis by blast
    qed
  qed
qed

theorem get_llm_mappings_shape_witness:
  \<open>response_text [''{"mappedNotes": ["fermented", "wild"], "mappedProcesses": ["natural"]}'']
     = Inr ''{"mappedNotes": ["fermented", "wild"], "mappedProcesses": ["natural"]}''
   \<and> json_loads_flat ''{"mappedNotes": ["fermented", "wild"], "mappedProcesses": ["natural"]}''
     = Inr (JObject [(''mappedNotes'', JArray [JString ''fermented'', JString ''wild'']),
                     (''mappedProcesses'', JArray [JString ''natural''])])
   \<and> get_llm_mappings json_loads_flat
        [''{"mappedNotes": ["fermented", "wild"], "mappedProcesses": ["natural"]}'']
     = Inr (JObject [(''mappedNotes'', JArray [JString ''fermented'', JString ''wild'']),
                     (''mappedProcesses'', JArray [JString ''natural''])])
   \<and> shape_ok (JObject [(''mappedNotes'', JArray [JString ''fermented'', JString ''wild'']),
                      (''mappedProcesses'', JArray [JString ''natural''])])\<close>
proof -
  let ?text = \<open>''{"mappedNotes": ["fermented", "wild"], "mappedProcesses": ["natural"]}''\<close>
  let ?v = "JObject [(''mappedNotes'', JArray [JString ''fermented'', JString ''wild'']),
                     (''mappedProcesses'', JArray [JString ''natural''])]"
  have rt: "response_text [?text] = Inr ?text"
    by code_simp
  have ld: "json_loads_flat ?text = Inr ?v"
    by code_simp
  have run: "get_llm_mappings json_loads_flat [?text] = Inr ?v"
    by (simp add: get_llm_mappings_def try_body_def rt ld)
  have decoded: "shape_ok ?v"
    by code_simp
  have "\<forall>text v. response_text [?text] = Inr text \<and> json_loads_flat text = Inr v \<longrightarrow> shape_ok v"
    using decoded by (simp add: rt ld)
  then have "\<forall>m. get_llm_mappings json_loads_flat [?text] = Inr m \<longrightarrow> shape_ok m"
    by (simp only: get_llm_mappings_shape [of json_loads_flat "[?text]"])
  with run have "shape_ok ?v" by blast
  with rt ld run show ?thesis by blast
qed

text \<open>
  Claim C7, as stated, fails: a response with nine notes, one of them outside the fixed
  vocabulary, and four processes is returned as it is.
\<close>

theorem get_llm_mappings_unchecked_counterexample:
  \<open>get_llm_mappings json_loads_flat
     [''{"mappedNotes": ["peach", "plum", "cherry", "lemon", "lime", "berry", "mango", "fig", "bacon"], "mappedProcesses": ["washed", "natural", "honey", "anaerobic"]}'']
     = Inr (JObject [(''mappedNotes'', JArray [JString ''peach'', JString ''plum'',
                   JString ''cherry'', JString ''lemon'', JString ''lime'', JString ''berry'',
                   JString ''mango'', JString ''fig'', JString ''bacon'']),
                (''mappedProcesses'', JArray [JString ''washed'', JString ''natural'',
                   JString ''honey'', JString ''anaerobic''])])
   \<and> \<not> shape_ok (JObject [(''mappedNotes'', JArray [JString ''peach'', JString ''plum'',
                   JString ''cherry'', JString ''lemon'', JString ''lime'', JString ''berry'',
                   JString ''mango'', JString ''fig'', JString ''bacon'']),
                (''mappedProcesses'', JArray [JString ''washed'', JString ''natural'',
                   JString ''honey'', JString ''anaerobic''])])
   \<and> field ''mappedNotes'' (JObject [(''mappedNotes'', JArray [JString ''peach'',
                   JString ''plum'', JString ''cherry'', JString ''lemon'', JString ''lime'',
                   JString ''berry'', JString ''mango'', JString ''fig'', JString ''bacon'']),
                (''mappedProcesses'', JArray [JString ''washed'', JString ''natural'',
                   JString ''honey'', JString ''anaerobic''])])
     = Some [JString ''peach'', JString ''plum'', JString ''cherry'',
                   JString ''lemon'', JString ''lime'', JString ''berry'', JString ''mango'',
                   JString ''fig'', JString ''bacon'']
   \<and> \<not> is_note (JString ''bacon'')\<close>
  by code_simp


end
